theory Spec2Isabelle
  imports Complex_Main
begin

section \<open>JavaScript numbers\<close>

text \<open>
  The values that \<^verbatim>\<open>Math.js\<close> computes with are JavaScript numbers, the 64-bit binary
  floating-point numbers of IEEE 754: the representable reals, the negative zero, the two
  infinities and NaN. \<open>Fin x\<close> is the finite number of value \<open>x\<close>, and \<open>Fin 0\<close> is the positive
  zero. Which reals are representable is said below, by \<open>is_double\<close>.
\<close>

datatype jsnum = Fin real | NZero | PInf | NInf | NaN

fun sign_bit :: "jsnum \<Rightarrow> bool" where
  "sign_bit (Fin x) = (x < 0)"
| "sign_bit NZero = True"
| "sign_bit PInf = False"
| "sign_bit NInf = True"
| "sign_bit NaN = False"

fun rv :: "jsnum \<Rightarrow> real" where
  "rv (Fin x) = x"
| "rv _ = 0"

definition is_zero :: "jsnum \<Rightarrow> bool" where
  "is_zero a = (a = Fin 0 \<or> a = NZero)"

definition is_inf :: "jsnum \<Rightarrow> bool" where
  "is_inf a = (a = PInf \<or> a = NInf)"

definition zero_of :: "bool \<Rightarrow> jsnum" where
  "zero_of s = (if s then NZero else Fin 0)"

definition inf_of :: "bool \<Rightarrow> jsnum" where
  "inf_of s = (if s then NInf else PInf)"

text \<open>\<^verbatim>\<open>isNaN(x)\<close> and \<^verbatim>\<open>isFinite(x)\<close> on a number.\<close>

definition isNaN :: "jsnum \<Rightarrow> bool" where
  "isNaN a = (a = NaN)"

definition is_finite :: "jsnum \<Rightarrow> bool" where
  "is_finite a = (\<not> isNaN a \<and> \<not> is_inf a)"

text \<open>
  Every arithmetic operation rounds its exact result to the nearest representable value, a tie
  going to the neighbour whose significand is even. \<open>round_even\<close> is this rounding to an
  integer. A significand has 53 bits: \<open>binade x\<close> is the exponent \<open>e\<close> with
  \<open>2^e \<le> \<bar>x\<bar> < 2^(e+1)\<close>, found by halving a value from 2 on and doubling one below 1, and
  not less than \<open>- 1022\<close>, the exponent of the subnormal numbers;
  \<open>ulp x\<close> is the distance between neighbouring representable values there, and \<open>rounded x\<close> the
  multiple of \<open>ulp x\<close> nearest to \<open>x\<close>. A result whose rounded value reaches \<open>2^1024\<close> overflows
  to the infinity of its sign, and one whose rounded value is zero underflows to the zero of
  its sign: this is \<open>fl\<close>. The representable reals are those that \<open>fl\<close> leaves unchanged.
\<close>

definition round_even :: "real \<Rightarrow> int" where
  "round_even q =
     (let f = \<lfloor>q\<rfloor>; d = q - of_int f
      in if d < 1 / 2 then f else if 1 / 2 < d then f + 1 else if even f then f else f + 1)"

function exponent_up :: "real \<Rightarrow> int" where
  "exponent_up x = (if 2 \<le> x then exponent_up (x / 2) + 1 else 0)"
  by pat_completeness auto
termination
proof (relation "measure (\<lambda>x. nat \<lceil>x\<rceil>)")
  show "wf (measure (\<lambda>x. nat \<lceil>x\<rceil>))" by simp
next
  fix x :: real
  assume "2 \<le> x"
  then have "x / 2 \<le> x - 1" by simp
  then have "\<lceil>x / 2\<rceil> \<le> \<lceil>x - 1\<rceil>" by (rule ceiling_mono)
  moreover have "0 < \<lceil>x\<rceil>" using \<open>2 \<le> x\<close> by simp
  ultimately show "(x / 2, x) \<in> measure (\<lambda>x. nat \<lceil>x\<rceil>)" by simp
qed

function exponent_down :: "real \<Rightarrow> int" where
  "exponent_down x = (if 0 < x \<and> x < 1 then exponent_down (2 * x) - 1 else 0)"
  by pat_completeness auto
termination
proof (relation "measure (\<lambda>x. nat \<lceil>1 / x\<rceil>)")
  show "wf (measure (\<lambda>x. nat \<lceil>1 / x\<rceil>))" by simp
next
  fix x :: real
  assume x: "0 < x \<and> x < 1"
  define c where "c = \<lceil>1 / x\<rceil>"
  have "1 < 1 / x" using x by simp
  then have "1 < c" unfolding c_def by (simp add: less_ceiling_iff)
  then have c: "2 \<le> c" by simp
  have "1 / x \<le> of_int c" unfolding c_def by (rule le_of_int_ceiling)
  then have "1 / (2 * x) \<le> of_int c / 2" by simp
  also have "\<dots> \<le> of_int (c - 1)" using c by simp
  finally have "\<lceil>1 / (2 * x)\<rceil> \<le> c - 1" by (simp only: ceiling_le_iff)
  then show "(2 * x, x) \<in> measure (\<lambda>x. nat \<lceil>1 / x\<rceil>)"
    using c x unfolding c_def by simp
qed

declare exponent_up.simps [simp del] exponent_down.simps [simp del]

definition binade :: "real \<Rightarrow> int" where
  "binade x =
     max (if 1 \<le> \<bar>x\<bar> then exponent_up \<bar>x\<bar> else exponent_down \<bar>x\<bar>) (- 1022)"

definition ulp :: "real \<Rightarrow> real" where
  "ulp x = 2 powi (binade x - 52)"

definition rounded :: "real \<Rightarrow> real" where
  "rounded x = of_int (round_even (x / ulp x)) * ulp x"

definition fl :: "real \<Rightarrow> jsnum" where
  "fl x =
     (if 2 ^ 1024 \<le> \<bar>rounded x\<bar> then inf_of (x < 0)
      else if rounded x = 0 then zero_of (x < 0)
      else Fin (rounded x))"

definition is_double :: "real \<Rightarrow> bool" where
  "is_double x = (fl x = Fin x)"

text \<open>Unary minus flips the sign, also of a zero; it does not round.\<close>

fun jneg :: "jsnum \<Rightarrow> jsnum" where
  "jneg (Fin x) = (if x = 0 then NZero else Fin (- x))"
| "jneg NZero = Fin 0"
| "jneg PInf = NInf"
| "jneg NInf = PInf"
| "jneg NaN = NaN"

text \<open>
  Addition: infinities of opposite sign add up to NaN; a sum that is exactly zero is the
  positive zero, unless both summands are the negative zero; every other sum is rounded.
  Subtraction is the addition of the negated operand.
\<close>

fun jadd :: "jsnum \<Rightarrow> jsnum \<Rightarrow> jsnum" where
  "jadd NaN _ = NaN"
| "jadd _ NaN = NaN"
| "jadd PInf NInf = NaN"
| "jadd NInf PInf = NaN"
| "jadd PInf _ = PInf"
| "jadd _ PInf = PInf"
| "jadd NInf _ = NInf"
| "jadd _ NInf = NInf"
| "jadd NZero NZero = NZero"
| "jadd NZero (Fin y) = Fin y"
| "jadd (Fin x) NZero = Fin x"
| "jadd (Fin x) (Fin y) = (if x + y = 0 then Fin 0 else fl (x + y))"

definition jsub :: "jsnum \<Rightarrow> jsnum \<Rightarrow> jsnum" where
  "jsub a b = jadd a (jneg b)"

text \<open>
  Multiplication and division: the sign of the result is the exclusive or of the signs of
  the operands; \<open>0 * Infinity\<close>, \<open>0 / 0\<close> and \<open>Infinity / Infinity\<close> are NaN; a non-zero
  value divided by a zero is an infinity; the product and the quotient of finite non-zero
  values are rounded, and so may overflow to an infinity or underflow to a zero.
\<close>

definition jmul :: "jsnum \<Rightarrow> jsnum \<Rightarrow> jsnum" where
  "jmul a b =
     (if isNaN a \<or> isNaN b then NaN
      else if (is_zero a \<and> is_inf b) \<or> (is_inf a \<and> is_zero b) then NaN
      else if is_inf a \<or> is_inf b then inf_of (sign_bit a \<noteq> sign_bit b)
      else if is_zero a \<or> is_zero b then zero_of (sign_bit a \<noteq> sign_bit b)
      else fl (rv a * rv b))"

definition jdiv :: "jsnum \<Rightarrow> jsnum \<Rightarrow> jsnum" where
  "jdiv a b =
     (if isNaN a \<or> isNaN b then NaN
      else if (is_zero a \<and> is_zero b) \<or> (is_inf a \<and> is_inf b) then NaN
      else if is_inf a \<or> is_zero b then inf_of (sign_bit a \<noteq> sign_bit b)
      else if is_zero a \<or> is_inf b then zero_of (sign_bit a \<noteq> sign_bit b)
      else fl (rv a / rv b))"

text \<open>
  \<^verbatim>\<open>Math.sqrt\<close>, \<^verbatim>\<open>Math.abs\<close> and \<^verbatim>\<open>Math.floor\<close>. The square root is rounded like the
  arithmetic operations; the absolute value and the floor of a number are numbers.
\<close>

fun Math_sqrt :: "jsnum \<Rightarrow> jsnum" where
  "Math_sqrt (Fin x) = (if x < 0 then NaN else fl (sqrt x))"
| "Math_sqrt NZero = NZero"
| "Math_sqrt PInf = PInf"
| "Math_sqrt NInf = NaN"
| "Math_sqrt NaN = NaN"

fun Math_abs :: "jsnum \<Rightarrow> jsnum" where
  "Math_abs (Fin x) = Fin \<bar>x\<bar>"
| "Math_abs NZero = Fin 0"
| "Math_abs PInf = PInf"
| "Math_abs NInf = PInf"
| "Math_abs NaN = NaN"

fun Math_floor :: "jsnum \<Rightarrow> jsnum" where
  "Math_floor (Fin x) = Fin (of_int \<lfloor>x\<rfloor>)"
| "Math_floor a = a"

text \<open>
  The comparisons \<^verbatim>\<open>==\<close>, \<^verbatim>\<open><\<close>, \<^verbatim>\<open><=\<close>, \<^verbatim>\<open>>\<close> and \<^verbatim>\<open>>=\<close> on numbers: the two zeros are equal,
  and every comparison with NaN is false.
\<close>

fun jeq :: "jsnum \<Rightarrow> jsnum \<Rightarrow> bool" where
  "jeq NaN _ = False"
| "jeq _ NaN = False"
| "jeq PInf b = (b = PInf)"
| "jeq NInf b = (b = NInf)"
| "jeq a PInf = False"
| "jeq a NInf = False"
| "jeq a b = (rv a = rv b)"

fun jlt :: "jsnum \<Rightarrow> jsnum \<Rightarrow> bool" where
  "jlt NaN _ = False"
| "jlt _ NaN = False"
| "jlt PInf _ = False"
| "jlt _ NInf = False"
| "jlt _ PInf = True"
| "jlt NInf _ = True"
| "jlt a b = (rv a < rv b)"

definition jle :: "jsnum \<Rightarrow> jsnum \<Rightarrow> bool" where
  "jle a b = (jlt a b \<or> jeq a b)"

definition jgt :: "jsnum \<Rightarrow> jsnum \<Rightarrow> bool" where
  "jgt a b = jlt b a"

definition jge :: "jsnum \<Rightarrow> jsnum \<Rightarrow> bool" where
  "jge a b = jle b a"

section \<open>Combinatorics\<close>

text \<open>
  \<^verbatim>\<open>
  function (n) {
      if (n<0) return NaN;
      if (n==0 || n==1) return 1;
      return n*arguments.callee(n-1);
  }
  \<close>
  The function that \<^verbatim>\<open>JXG.Math.factorial\<close> memoizes. \<^verbatim>\<open>arguments.callee\<close> is this function
  itself, not its memoized wrapper. Every recursive call is nested in its caller, and the call
  stack of the engine is finite: \<open>depth\<close> is the number of nested calls that the stack has
  room for, and the result \<open>None\<close> is the \<^verbatim>\<open>RangeError\<close> that ends the computation when a call
  finds no room. A recursion that reaches no base case ends in this way at every depth.

  The wrapper is the subject of the section on the memoizer. On numbers it returns what the
  function returns: neither this function nor the next returns \<^verbatim>\<open>undefined\<close>, and two numbers
  have the same key only when they are equal or both zero, where the functions agree.
\<close>

fun factorial :: "nat \<Rightarrow> jsnum \<Rightarrow> jsnum option" where
  "factorial 0 n = None"
| "factorial (Suc depth) n =
     (if jlt n (Fin 0) then Some NaN
      else if jeq n (Fin 0) \<or> jeq n (Fin 1) then Some (Fin 1)
      else Option.bind (factorial depth (jsub n (Fin 1))) (\<lambda>r. Some (jmul n r)))"




text \<open>
  The multiplicative formula of the specification, the product of \<open>(n - i) / (i + 1)\<close> for
  \<open>i\<close> from 0 to \<open>k - 1\<close> in the real numbers, to compare the loop with. And the condition
  under which the loop will be seen to compute it without rounding: every product
  \<open>b * (n - i)\<close> that the loop forms, which is \<open>(n choose i) * (n - i)\<close>, is at most \<open>2^53\<close>.
\<close>

definition mult_formula :: "real \<Rightarrow> nat \<Rightarrow> real" where
  "mult_formula n k = (\<Prod>i<k. (n - real i) / (real i + 1))"


section \<open>Numeric helpers\<close>

text \<open>
  \<^verbatim>\<open>Math.pow\<close>, \<^verbatim>\<open>Math.exp\<close> and \<^verbatim>\<open>Math.log\<close> belong to the language, and ECMAScript leaves
  their values on finite arguments to the implementation: they are approximations of the
  mathematical functions, not necessarily the nearest numbers. They are therefore a parameter
  of the model, the record \<open>lib\<close> of the three functions as the engine provides them.
\<close>

record builtins =
  Math_pow :: "jsnum \<Rightarrow> jsnum \<Rightarrow> jsnum"
  Math_exp :: "jsnum \<Rightarrow> jsnum"
  Math_log :: "jsnum \<Rightarrow> jsnum"

text \<open>
  \<^verbatim>\<open>
  JXG.Math.pow = function(a, b) {
      if (a==0) {
          if (b==0) { return 1; } else { return 0.0; }
      }
      if (Math.floor(b)==b) { return Math.pow(a,b); }
      else {
          if (a>0) { return Math.exp(b*Math.log(Math.abs(a))); }
          else { return NaN; }
      }
  };
  \<close>
\<close>

definition pow :: "builtins \<Rightarrow> jsnum \<Rightarrow> jsnum \<Rightarrow> jsnum" where
  "pow lib a b =
     (if jeq a (Fin 0) then (if jeq b (Fin 0) then Fin 1 else Fin 0)
      else if jeq (Math_floor b) b then Math_pow lib a b
      else if jgt a (Fin 0) then Math_exp lib (jmul b (Math_log lib (Math_abs a)))
      else NaN)"

section \<open>Vector and matrix kernel\<close>

text \<open>
  An array that is only computed with is a list of numbers. Reading past its end gives
  \<^verbatim>\<open>undefined\<close>; every read of such an array is an operand of arithmetic, where \<^verbatim>\<open>undefined\<close>
  converts to NaN. Writing at an index past the end extends the array; the slots skipped over
  are holes, which read as \<^verbatim>\<open>undefined\<close> and are therefore kept as NaN.
\<close>

definition nth_num :: "jsnum list \<Rightarrow> nat \<Rightarrow> jsnum" where
  "nth_num xs i = (if i < length xs then xs ! i else NaN)"

definition aset :: "jsnum list \<Rightarrow> nat \<Rightarrow> jsnum \<Rightarrow> jsnum list" where
  "aset xs i v =
     (if i < length xs then xs[i := v] else xs @ replicate (i - length xs) NaN @ [v])"

text \<open>
  \<^verbatim>\<open>
  matVecMult: function(mat, vec) {
      var m = mat.length, n = vec.length, res = [], i, s, k;
      if (n==3) {
          for (i=0;i<m;i++) {
              res[i] = mat[i][0]*vec[0] + mat[i][1]*vec[1] + mat[i][2]*vec[2];
          }
      } else {
          for (i=0;i<m;i++) {
              s = 0;
              for (k=0;k<n;k++) { s += mat[i][k]*vec[k]; }
              res[i] = s;
          }
      }
      return res;
  }
  \<close>
  \<open>row3\<close> is the unrolled expression, \<open>accumulate\<close> the inner loop of the general path, and
  each of the two outer loops is a recursion over \<open>(i, res)\<close>. The two branches are named so
  that they can be compared on the same input.
\<close>

definition row3 :: "jsnum list \<Rightarrow> jsnum list \<Rightarrow> jsnum" where
  "row3 row vec =
     jadd (jadd (jmul (nth_num row 0) (nth_num vec 0)) (jmul (nth_num row 1) (nth_num vec 1)))
          (jmul (nth_num row 2) (nth_num vec 2))"

function matVecMult_unrolled_loop ::
  "jsnum list list \<Rightarrow> jsnum list \<Rightarrow> nat \<Rightarrow> jsnum list \<Rightarrow> jsnum list" where
  "matVecMult_unrolled_loop mat vec i res =
     (if i < length mat
      then matVecMult_unrolled_loop mat vec (Suc i) (aset res i (row3 (mat ! i) vec))
      else res)"
  by pat_completeness auto
termination
  by (relation "measure (\<lambda>(mat, vec, i, res). length mat - i)") auto

function accumulate :: "jsnum list \<Rightarrow> jsnum list \<Rightarrow> nat \<Rightarrow> nat \<Rightarrow> jsnum \<Rightarrow> jsnum" where
  "accumulate row vec n k s =
     (if k < n
      then accumulate row vec n (Suc k) (jadd s (jmul (nth_num row k) (nth_num vec k)))
      else s)"
  by pat_completeness auto
termination
  by (relation "measure (\<lambda>(row, vec, n, k, s). n - k)") auto

function matVecMult_general_loop ::
  "jsnum list list \<Rightarrow> jsnum list \<Rightarrow> nat \<Rightarrow> jsnum list \<Rightarrow> jsnum list" where
  "matVecMult_general_loop mat vec i res =
     (if i < length mat
      then matVecMult_general_loop mat vec (Suc i)
             (aset res i (accumulate (mat ! i) vec (length vec) 0 (Fin 0)))
      else res)"
  by pat_completeness auto
termination
  by (relation "measure (\<lambda>(mat, vec, i, res). length mat - i)") auto

definition matVecMult_unrolled :: "jsnum list list \<Rightarrow> jsnum list \<Rightarrow> jsnum list" where
  "matVecMult_unrolled mat vec = matVecMult_unrolled_loop mat vec 0 []"

definition matVecMult_general :: "jsnum list list \<Rightarrow> jsnum list \<Rightarrow> jsnum list" where
  "matVecMult_general mat vec = matVecMult_general_loop mat vec 0 []"

definition matVecMult :: "jsnum list list \<Rightarrow> jsnum list \<Rightarrow> jsnum list" where
  "matVecMult mat vec =
     (if length vec = 3 then matVecMult_unrolled mat vec else matVecMult_general mat vec)"

text \<open>
  Two numbers are the same up to the sign of zero; and the rows on which the two paths will
  be seen to differ: those whose three products are all the negative zero.
\<close>

definition same_number :: "jsnum \<Rightarrow> jsnum \<Rightarrow> bool" where
  "same_number a b = (a = b \<or> (is_zero a \<and> is_zero b))"

definition neg_zero_products :: "jsnum list \<Rightarrow> jsnum list \<Rightarrow> bool" where
  "neg_zero_products row vec =
     (jmul (nth_num row 0) (nth_num vec 0) = NZero \<and> jmul (nth_num row 1) (nth_num vec 1) = NZero
      \<and> jmul (nth_num row 2) (nth_num vec 2) = NZero)"

text \<open>
  Where the entries of an array are copied rather than computed with, \<^verbatim>\<open>undefined\<close> has to
  be kept apart from every number: such an array is a list of slots, each holding a value or
  nothing. \<^verbatim>\<open>new Array(k)\<close> has \<open>k\<close> empty slots. A matrix is an array of rows.
\<close>

type_synonym 'a array = "'a option list"

definition new_Array :: "nat \<Rightarrow> 'a array" where
  "new_Array k = replicate k None"

definition array_get :: "'a array \<Rightarrow> nat \<Rightarrow> 'a option" where
  "array_get xs i = (if i < length xs then xs ! i else None)"

definition array_put :: "'a array \<Rightarrow> nat \<Rightarrow> 'a option \<Rightarrow> 'a array" where
  "array_put xs i v =
     (if i < length xs then xs[i := v] else xs @ replicate (i - length xs) None @ [v])"

text \<open>
  \<^verbatim>\<open>
  matrix: function(n, m, init) {
      var r, i, j;
      init = init || 0;
      r = new Array(Math.ceil(n));
      for(i=0; i<n; i++) {
          r[i] = new Array(Math.ceil(m));
          for(j=0; j<m; j++) { r[i][j] = init; }
      }
      return r;
  }
  \<close>
  \<open>or_zero\<close> is \<^verbatim>\<open>init || 0\<close>: a missing argument, a zero and NaN are falsy. The sizes are
  natural numbers here, as they are array lengths at the call from \<open>matTranspose\<close>.
  \<open>matrix_fill\<close> is the inner loop, \<open>matrix_rows\<close> the outer one.
\<close>

definition or_zero :: "jsnum option \<Rightarrow> jsnum" where
  "or_zero init =
     (case init of None \<Rightarrow> Fin 0
      | Some v \<Rightarrow> if is_zero v \<or> isNaN v then Fin 0 else v)"

function matrix_fill :: "jsnum array \<Rightarrow> nat \<Rightarrow> nat \<Rightarrow> jsnum \<Rightarrow> jsnum array" where
  "matrix_fill row m j init =
     (if j < m then matrix_fill (array_put row j (Some init)) m (Suc j) init else row)"
  by pat_completeness auto
termination
  by (relation "measure (\<lambda>(row, m, j, init). m - j)") auto

function matrix_rows ::
  "jsnum array array \<Rightarrow> nat \<Rightarrow> nat \<Rightarrow> nat \<Rightarrow> jsnum \<Rightarrow> jsnum array array" where
  "matrix_rows r n m i init =
     (if i < n
      then matrix_rows (array_put r i (Some (matrix_fill (new_Array m) m 0 init))) n m (Suc i) init
      else r)"
  by pat_completeness auto
termination
  by (relation "measure (\<lambda>(r, n, m, i, init). n - i)") auto

definition matrix :: "nat \<Rightarrow> nat \<Rightarrow> jsnum option \<Rightarrow> jsnum array array" where
  "matrix n m init = matrix_rows (new_Array n) n m 0 (or_zero init)"

text \<open>
  \<^verbatim>\<open>
  matTranspose: function(M) {
      var MT, i, j, m, n;
      m = M.length;                     // number of rows of M
      n = M.length>0 ? M[0].length : 0; // number of columns of M
      MT = JXG.Math.matrix(n,m);
      for (i=0; i<n; i++) {
          for (j=0;j<m;j++) { MT[i][j] = M[j][i]; }
      }
      return MT;
  }
  \<close>
  \<open>transpose_assign\<close> is the assignment \<^verbatim>\<open>MT[i][j] = M[j][i]\<close>; indexing into a row that is
  \<^verbatim>\<open>undefined\<close> throws a TypeError, which is the result \<open>None\<close>, as is \<^verbatim>\<open>M[0].length\<close> on
  such a row. \<open>transpose_cols\<close> is the inner loop, \<open>transpose_rows\<close> the outer one.
\<close>

definition transpose_assign ::
  "jsnum array array \<Rightarrow> jsnum array array \<Rightarrow> nat \<Rightarrow> nat \<Rightarrow> jsnum array array option" where
  "transpose_assign M MT i j =
     (case array_get MT i of
        None \<Rightarrow> None
      | Some t \<Rightarrow>
          (case array_get M j of
             None \<Rightarrow> None
           | Some r \<Rightarrow> Some (array_put MT i (Some (array_put t j (array_get r i))))))"

function transpose_cols ::
  "jsnum array array \<Rightarrow> jsnum array array \<Rightarrow> nat \<Rightarrow> nat \<Rightarrow> nat \<Rightarrow> jsnum array array option" where
  "transpose_cols M MT m i j =
     (if j < m
      then (case transpose_assign M MT i j of
              None \<Rightarrow> None
            | Some MT' \<Rightarrow> transpose_cols M MT' m i (Suc j))
      else Some MT)"
  by pat_completeness auto
termination
  by (relation "measure (\<lambda>(M, MT, m, i, j). m - j)") auto

function transpose_rows ::
  "jsnum array array \<Rightarrow> jsnum array array \<Rightarrow> nat \<Rightarrow> nat \<Rightarrow> nat \<Rightarrow> jsnum array array option" where
  "transpose_rows M MT n m i =
     (if i < n
      then (case transpose_cols M MT m i 0 of
              None \<Rightarrow> None
            | Some MT' \<Rightarrow> transpose_rows M MT' n m (Suc i))
      else Some MT)"
  by pat_completeness auto
termination
  by (relation "measure (\<lambda>(M, MT, n, m, i). n - i)") auto

definition matTranspose :: "jsnum array array \<Rightarrow> jsnum array array option" where
  "matTranspose M =
     (let m = length M in
      case (if length M > 0 then map_option length (array_get M 0) else Some 0) of
        None \<Rightarrow> None
      | Some n \<Rightarrow> transpose_rows M (matrix n m None) n m 0)"


text \<open>
  Shapes: \<open>cell M j i\<close> is \<^verbatim>\<open>M[j][i]\<close> where no row is missing; \<open>columns\<close> is the length of the
  first row, the width that \<open>matTranspose\<close> reads; a matrix is rectangular when every row is
  there and has that length.
\<close>

definition cell :: "'a array array \<Rightarrow> nat \<Rightarrow> nat \<Rightarrow> 'a option" where
  "cell M j i = (case array_get M j of None \<Rightarrow> None | Some r \<Rightarrow> array_get r i)"

definition rows_defined :: "'a array array \<Rightarrow> bool" where
  "rows_defined M = (None \<notin> set M)"

definition columns :: "'a array array \<Rightarrow> nat" where
  "columns M = (case M of [] \<Rightarrow> 0 | None # _ \<Rightarrow> 0 | Some r # _ \<Rightarrow> length r)"

definition rectangular :: "'a array array \<Rightarrow> bool" where
  "rectangular M = (\<forall>slot \<in> set M. map_option length slot = Some (columns M))"

section \<open>Stdform normalizer\<close>

text \<open>
  \<^verbatim>\<open>
  JXG.Math.normalize = function(stdform) {
      var a2 = 2*stdform[3],
          r = stdform[4]/(a2),  // k/(2a)
          n, signr;
      stdform[5] = r;
      stdform[6] = -stdform[1]/a2;
      stdform[7] = -stdform[2]/a2;
      if (r==Infinity || isNaN(r)) {
          n = Math.sqrt(stdform[1]*stdform[1]+stdform[2]*stdform[2]);
          stdform[0] /= n;
          stdform[1] /= n;
          stdform[2] /= n;
          stdform[3] = 0;
          stdform[4] = 1;
      } else if (Math.abs(r)>=1) {
          stdform[0] = (stdform[6]*stdform[6]+stdform[7]*stdform[7]-r*r)/(2*r);
          stdform[1] = -stdform[6]/r;
          stdform[2] = -stdform[7]/r;
          stdform[3] = 1/(2*r);
          stdform[4] = 1;
      } else {
          signr = (r<=0)?(-1):(1);
          stdform[0] = signr*(stdform[6]*stdform[6]+stdform[7]*stdform[7]-r*r)*0.5;
          stdform[1] = -signr*stdform[6];
          stdform[2] = -signr*stdform[7];
          stdform[3] = signr/2;
          stdform[4] = signr*r;
      }
      return stdform;
  };
  \<close>
  The stdform \<open>[c, b0, b1, a, k, r, q0, q1]\<close> is an array of numbers, updated in place and
  returned: each assignment is a step of state passing. The three branches are the functions
  \<open>normalize_line\<close>, \<open>normalize_large\<close> and \<open>normalize_small\<close>, in the order of the code.
\<close>

definition normalize_line :: "jsnum list \<Rightarrow> jsnum list" where
  "normalize_line s =
     (let n = Math_sqrt (jadd (jmul (nth_num s 1) (nth_num s 1)) (jmul (nth_num s 2) (nth_num s 2)));
          s = aset s 0 (jdiv (nth_num s 0) n);
          s = aset s 1 (jdiv (nth_num s 1) n);
          s = aset s 2 (jdiv (nth_num s 2) n);
          s = aset s 3 (Fin 0);
          s = aset s 4 (Fin 1)
      in s)"

definition normalize_large :: "jsnum \<Rightarrow> jsnum list \<Rightarrow> jsnum list" where
  "normalize_large r s =
     (let s = aset s 0 (jdiv (jsub (jadd (jmul (nth_num s 6) (nth_num s 6))
                                        (jmul (nth_num s 7) (nth_num s 7))) (jmul r r))
                             (jmul (Fin 2) r));
          s = aset s 1 (jdiv (jneg (nth_num s 6)) r);
          s = aset s 2 (jdiv (jneg (nth_num s 7)) r);
          s = aset s 3 (jdiv (Fin 1) (jmul (Fin 2) r));
          s = aset s 4 (Fin 1)
      in s)"

definition normalize_small :: "jsnum \<Rightarrow> jsnum list \<Rightarrow> jsnum list" where
  "normalize_small r s =
     (let signr = (if jle r (Fin 0) then jneg (Fin 1) else Fin 1);
          s = aset s 0 (jmul (jmul signr (jsub (jadd (jmul (nth_num s 6) (nth_num s 6))
                                                     (jmul (nth_num s 7) (nth_num s 7))) (jmul r r)))
                             (Fin (1 / 2)));
          s = aset s 1 (jmul (jneg signr) (nth_num s 6));
          s = aset s 2 (jmul (jneg signr) (nth_num s 7));
          s = aset s 3 (jdiv signr (Fin 2));
          s = aset s 4 (jmul signr r)
      in s)"

definition normalize_jxg :: "jsnum list \<Rightarrow> jsnum list" where
  "normalize_jxg stdform =
     (let a2 = jmul (Fin 2) (nth_num stdform 3);
          r = jdiv (nth_num stdform 4) a2;
          s = aset stdform 5 r;
          s = aset s 6 (jdiv (jneg (nth_num s 1)) a2);
          s = aset s 7 (jdiv (jneg (nth_num s 2)) a2)
      in if jeq r PInf \<or> isNaN r then normalize_line s
         else if jge (Math_abs r) (Fin 1) then normalize_large r s
         else normalize_small r s)"

text \<open>
  The values computed before the branch, as functions of the input: the radius \<open>k / (2 a)\<close> and
  the centre \<open>(- b0 / (2 a), - b1 / (2 a))\<close>; and the three tests on the radius.
\<close>

definition derived_r :: "jsnum list \<Rightarrow> jsnum" where
  "derived_r s = jdiv (nth_num s 4) (jmul (Fin 2) (nth_num s 3))"

definition derived_q0 :: "jsnum list \<Rightarrow> jsnum" where
  "derived_q0 s = jdiv (jneg (nth_num s 1)) (jmul (Fin 2) (nth_num s 3))"

definition derived_q1 :: "jsnum list \<Rightarrow> jsnum" where
  "derived_q1 s = jdiv (jneg (nth_num s 2)) (jmul (Fin 2) (nth_num s 3))"

definition line_regime :: "jsnum \<Rightarrow> bool" where
  "line_regime r = (jeq r PInf \<or> isNaN r)"

definition large_regime :: "jsnum \<Rightarrow> bool" where
  "large_regime r = (\<not> line_regime r \<and> jge (Math_abs r) (Fin 1))"

definition small_regime :: "jsnum \<Rightarrow> bool" where
  "small_regime r = (\<not> line_regime r \<and> \<not> jge (Math_abs r) (Fin 1))"

text \<open>
  A valid stdform in the sense of the idempotence claim: slots 0 to 4 are finite, and it
  describes a line (\<open>a = 0\<close> and \<open>(b0, b1) \<noteq> (0, 0)\<close>) or a circle (\<open>a \<noteq> 0\<close>).
\<close>

definition valid_stdform :: "jsnum list \<Rightarrow> bool" where
  "valid_stdform s =
     (is_finite (nth_num s 0) \<and> is_finite (nth_num s 1) \<and> is_finite (nth_num s 2)
      \<and> is_finite (nth_num s 3) \<and> is_finite (nth_num s 4)
      \<and> \<not> (is_zero (nth_num s 3) \<and> is_zero (nth_num s 1) \<and> is_zero (nth_num s 2)))"

section \<open>Memoizer\<close>

text \<open>
  \<^verbatim>\<open>
  JXG.memoizer = function (f) {
      var cache, join;
      if (f.memo) { return f.memo; }
      cache = {};
      join = Array.prototype.join;
      return (f.memo = function() {
          var key = join.call(arguments);
          return (typeof cache[key]!='undefined')
              ? cache[key]
              : cache[key] = f.apply(this, arguments);
      });
  };
  \<close>
  The key of a call is its arguments joined by commas; \<open>str\<close> is the conversion of one
  argument to a string, which belongs to the language.
\<close>

fun join :: "('a \<Rightarrow> string) \<Rightarrow> 'a list \<Rightarrow> string" where
  "join str [] = []"
| "join str [x] = str x"
| "join str (x # y # ys) = str x @ '','' @ join str (y # ys)"

text \<open>
  Function objects live in a store, addressed by their index. A function object is either a
  pure function, given by its graph on argument tuples, or a wrapper made by \<open>memoizer\<close>, which
  captures the address of \<open>f\<close> and its own cache; \<open>memo\<close> is the property \<^verbatim>\<open>f.memo\<close>. A result
  or a cache entry is \<open>None\<close> when it is \<^verbatim>\<open>undefined\<close>: the test \<^verbatim>\<open>typeof cache[key]!='undefined'\<close>
  cannot tell a stored \<^verbatim>\<open>undefined\<close> from a missing key. The store also records, in \<open>evals\<close>,
  every evaluation of a pure function, so that evaluations can be counted.
\<close>

datatype ('a, 'v) closure =
    Pure "'a list \<Rightarrow> 'v option"
  | Memoized nat "string \<Rightarrow> 'v option"

record ('a, 'v) funobj =
  body :: "('a, 'v) closure"
  memo :: "nat option"

record ('a, 'v) state =
  heap :: "('a, 'v) funobj list"
  evals :: "(nat \<times> 'a list) list"

text \<open>
  \<open>plain_object\<close> is what a fresh \<^verbatim>\<open>{}\<close> answers to \<^verbatim>\<open>cache[key]\<close>: the properties it inherits.
  Applied to an address that holds no function object, \<open>memoizer\<close> fails with a TypeError,
  the result \<open>None\<close>.
\<close>

definition memoizer ::
  "(string \<Rightarrow> 'v option) \<Rightarrow> ('a, 'v) state \<Rightarrow> nat \<Rightarrow> (nat \<times> ('a, 'v) state) option" where
  "memoizer plain_object s f =
     (if length (heap s) \<le> f then None
      else case memo (heap s ! f) of
        Some w \<Rightarrow> Some (w, s)
      | None \<Rightarrow>
          (let w = length (heap s);
               wrapper = \<lparr>body = Memoized f plain_object, memo = None\<rparr>
           in Some (w, s\<lparr>heap := (heap s)[f := (heap s ! f)\<lparr>memo := Some w\<rparr>] @ [wrapper]\<rparr>)))"

text \<open>
  A call of the function object at address \<open>a\<close>; \<open>cache_store\<close> is the assignment
  \<^verbatim>\<open>cache[key] = v\<close> in the wrapper at \<open>a\<close>. A wrapper is allocated after the function it
  captures, so the captured address is the smaller one; the recursion descends along it.
\<close>

definition cache_store :: "('a, 'v) state \<Rightarrow> nat \<Rightarrow> string \<Rightarrow> 'v option \<Rightarrow> ('a, 'v) state" where
  "cache_store s a key v =
     (case body (heap s ! a) of
        Memoized f cache \<Rightarrow>
          s\<lparr>heap := (heap s)[a := (heap s ! a)\<lparr>body := Memoized f (cache(key := v))\<rparr>]\<rparr>
      | Pure g \<Rightarrow> s)"

function call ::
  "('a \<Rightarrow> string) \<Rightarrow> ('a, 'v) state \<Rightarrow> nat \<Rightarrow> 'a list \<Rightarrow> ('v option \<times> ('a, 'v) state) option" where
  "call str s a args =
     (if length (heap s) \<le> a then None
      else case body (heap s ! a) of
        Pure g \<Rightarrow> Some (g args, s\<lparr>evals := evals s @ [(a, args)]\<rparr>)
      | Memoized f cache \<Rightarrow>
          (case cache (join str args) of
             Some v \<Rightarrow> Some (Some v, s)
           | None \<Rightarrow>
               if f < a
               then (case call str s f args of
                       None \<Rightarrow> None
                     | Some (v, s') \<Rightarrow> Some (v, cache_store s' a (join str args) v))
               else None))"
  by pat_completeness auto
termination
  by (relation "measure (\<lambda>(str, s, a, args). a)") auto

text \<open>A sequence of calls of the same function object, with the values returned.\<close>

fun calls ::
  "('a \<Rightarrow> string) \<Rightarrow> ('a, 'v) state \<Rightarrow> nat \<Rightarrow> 'a list list \<Rightarrow> ('v option list \<times> ('a, 'v) state) option" where
  "calls str s a [] = Some ([], s)"
| "calls str s a (args # rest) =
     (case call str s a args of
        None \<Rightarrow> None
      | Some (v, s') \<Rightarrow>
          (case calls str s' a rest of
             None \<Rightarrow> None
           | Some (vs, s'') \<Rightarrow> Some (v # vs, s'')))"

text \<open>
  A session to run the wrapper in: a store that holds one pure function \<open>g\<close> at address 0 is
  given to \<open>memoizer\<close>, and the wrapper is called on the argument tuples \<open>xs\<close> in order. The
  result is the list of returned values and the list of tuples on which \<open>g\<close> was evaluated.
\<close>

definition fresh_store :: "('a list \<Rightarrow> 'v option) \<Rightarrow> ('a, 'v) state" where
  "fresh_store g = \<lparr>heap = [\<lparr>body = Pure g, memo = None\<rparr>], evals = []\<rparr>"

definition memo_session ::
  "(string \<Rightarrow> 'v option) \<Rightarrow> ('a \<Rightarrow> string) \<Rightarrow> ('a list \<Rightarrow> 'v option) \<Rightarrow> 'a list list
     \<Rightarrow> ('v option list \<times> 'a list list) option" where
  "memo_session plain_object str g xs =
     (case memoizer plain_object (fresh_store g) 0 of
        None \<Rightarrow> None
      | Some (w, s1) \<Rightarrow>
          (case calls str s1 w xs of
             None \<Rightarrow> None
           | Some (vs, s2) \<Rightarrow> Some (vs, map snd (evals s2))))"

section \<open>Rounding\<close>

text \<open>
  The facts about \<open>fl\<close> that the proofs below rest on: rounding is monotone; the values it
  leaves unchanged are the multiples \<open>m * 2^e\<close> of a power of two with \<open>\<bar>m\<bar> < 2^53\<close> and
  \<open>e \<ge> - 1074\<close>, among them every integer up to \<open>2^53\<close>; and every rounded value is of this
  form. The rules \<open>fl_eval\<close>, \<open>fl_sqrt_eval\<close>, \<open>fl_underflow\<close> and \<open>fl_overflow\<close> compute \<open>fl\<close> at a
  given real from the exponent of its binade and the significand of the result.
\<close>

lemma round_even_of_int [simp]: "round_even (of_int n) = n"
  by (simp add: round_even_def)

lemma round_even_close: "\<bar>q - of_int (round_even q)\<bar> \<le> 1 / 2"
  unfolding round_even_def Let_def by (auto; linarith)

lemma round_even_mono:
  assumes "p \<le> q"
  shows "round_even p \<le> round_even q"
proof (rule ccontr)
  assume "\<not> round_even p \<le> round_even q"
  then have gt: "round_even q + 1 \<le> round_even p" by simp
  then have "real_of_int (round_even q) + 1 \<le> real_of_int (round_even p)"
    by (metis of_int_1 of_int_add of_int_le_iff)
  with round_even_close [of p] round_even_close [of q] assms
  have "p = q" by linarith
  with gt show False by simp
qed

lemma round_even_ge: "of_int n \<le> q \<Longrightarrow> n \<le> round_even q"
  using round_even_mono [of "of_int n" q] by simp

lemma round_even_le: "q \<le> of_int n \<Longrightarrow> round_even q \<le> n"
  using round_even_mono [of q "of_int n"] by simp

lemma ulp_pos [simp]: "0 < ulp x"
  by (simp add: ulp_def)

lemma ulp_nonneg [simp]: "0 \<le> ulp x"
  using ulp_pos [of x] by linarith

lemma ulp_neq_0 [simp]: "ulp x \<noteq> 0"
  using ulp_pos [of x] by linarith

lemma binade_ge [simp]: "- 1022 \<le> binade x"
  by (simp add: binade_def)

lemma pow2_less_iff: "(2::real) powi a < 2 powi b \<longleftrightarrow> a < b"
proof
  assume l: "(2::real) powi a < 2 powi b"
  show "a < b"
  proof (rule ccontr)
    assume "\<not> a < b"
    then have "(2::real) powi b \<le> 2 powi a" by (intro power_int_increasing) auto
    with l show False by simp
  qed
next
  assume "a < b"
  then show "(2::real) powi a < 2 powi b" by (intro power_int_strict_increasing) auto
qed

lemma pow2_le_iff: "(2::real) powi a \<le> 2 powi b \<longleftrightarrow> a \<le> b"
  using pow2_less_iff [of b a] by (simp add: not_less [symmetric])

lemma floor_log2_iff:
  assumes "x \<noteq> 0"
  shows "\<lfloor>log 2 \<bar>x\<bar>\<rfloor> = E \<longleftrightarrow> 2 powi E \<le> \<bar>x\<bar> \<and> \<bar>x\<bar> < 2 powi (E + 1)"
proof -
  have "0 < \<bar>x\<bar>" using assms by simp
  then have "\<lfloor>log 2 \<bar>x\<bar>\<rfloor> = E \<longleftrightarrow>
      2 powr real_of_int E \<le> \<bar>x\<bar> \<and> \<bar>x\<bar> < 2 powr real_of_int (E + 1)"
    by (intro floor_log_eq_powr_iff) auto
  also have "2 powr real_of_int E = (2::real) powi E" by (simp add: powr_real_of_int')
  also have "2 powr real_of_int (E + 1) = (2::real) powi (E + 1)"
    by (intro powr_real_of_int') auto
  finally show ?thesis .
qed

lemma floor_log2_bounds:
  assumes "x \<noteq> 0"
  shows "2 powi \<lfloor>log 2 \<bar>x\<bar>\<rfloor> \<le> \<bar>x\<bar>" "\<bar>x\<bar> < 2 powi (\<lfloor>log 2 \<bar>x\<bar>\<rfloor> + 1)"
  using floor_log2_iff [OF assms, of "\<lfloor>log 2 \<bar>x\<bar>\<rfloor>"] by simp_all

lemma floor_log2_eq:
  assumes "2 powi E \<le> \<bar>x\<bar>" "\<bar>x\<bar> < 2 powi (E + 1)"
  shows "\<lfloor>log 2 \<bar>x\<bar>\<rfloor> = E"
proof -
  have "0 < (2::real) powi E" by simp
  with assms(1) have "0 < \<bar>x\<bar>" by linarith
  then have "x \<noteq> 0" by simp
  then show ?thesis using floor_log2_iff [of x E] assms by simp
qed

lemma exponent_up_bounds:
  "1 \<le> x \<Longrightarrow> 2 powi (exponent_up x) \<le> x \<and> x < 2 powi (exponent_up x + 1)"
proof (induction x rule: exponent_up.induct)
  case (1 x)
  show ?case
  proof (cases "2 \<le> x")
    case True
    then have "1 \<le> x / 2" by simp
    with 1 True have ih: "2 powi (exponent_up (x / 2)) \<le> x / 2"
      "x / 2 < 2 powi (exponent_up (x / 2) + 1)" by simp_all
    have e: "exponent_up x = exponent_up (x / 2) + 1"
      using True by (subst exponent_up.simps) simp
    show ?thesis using ih unfolding e by (simp add: power_int_add)
  next
    case False
    then have e: "exponent_up x = 0" by (subst exponent_up.simps) simp
    show ?thesis using False 1(2) unfolding e by simp
  qed
qed

lemma exponent_down_bounds:
  "0 < x \<Longrightarrow> x < 1 \<Longrightarrow>
   2 powi (exponent_down x) \<le> x \<and> x < 2 powi (exponent_down x + 1)"
proof (induction x rule: exponent_down.induct)
  case (1 x)
  have e: "exponent_down x = exponent_down (2 * x) - 1"
    using 1(2,3) by (subst exponent_down.simps) simp
  show ?case
  proof (cases "2 * x < 1")
    case True
    with 1 have ih: "2 powi (exponent_down (2 * x)) \<le> 2 * x"
      "2 * x < 2 powi (exponent_down (2 * x) + 1)" by simp_all
    show ?thesis using ih unfolding e by (simp add: power_int_add power_int_diff)
  next
    case False
    then have "exponent_down (2 * x) = 0" by (subst exponent_down.simps) simp
    then show ?thesis using False 1(2,3) unfolding e by (simp add: power_int_minus)
  qed
qed

text \<open>The binade is the integer part of the binary logarithm, kept above the subnormal exponent.\<close>

lemma binade_log: "binade x = max \<lfloor>log 2 \<bar>x\<bar>\<rfloor> (- 1022)"
proof -
  consider "x = 0" | "1 \<le> \<bar>x\<bar>" | "0 < \<bar>x\<bar>" "\<bar>x\<bar> < 1" by fastforce
  then show ?thesis
  proof cases
    case 1
    have "exponent_down 0 = 0" by (subst exponent_down.simps) simp
    with 1 show ?thesis by (simp add: binade_def log_def)
  next
    case 2
    from exponent_up_bounds [OF 2] have "\<lfloor>log 2 \<bar>x\<bar>\<rfloor> = exponent_up \<bar>x\<bar>"
      by (intro floor_log2_eq) simp_all
    with 2 show ?thesis by (simp add: binade_def)
  next
    case 3
    from exponent_down_bounds [OF 3] have "\<lfloor>log 2 \<bar>x\<bar>\<rfloor> = exponent_down \<bar>x\<bar>"
      by (intro floor_log2_eq) simp_all
    with 3 show ?thesis by (simp add: binade_def)
  qed
qed

lemma binade_normal:
  assumes "2 powi E \<le> \<bar>x\<bar>" "\<bar>x\<bar> < 2 powi (E + 1)" "- 1022 \<le> E"
  shows "binade x = E"
  using floor_log2_eq [OF assms(1,2)] assms(3) by (simp add: binade_log)

lemma binade_upper:
  assumes "x \<noteq> 0"
  shows "\<bar>x\<bar> < 2 powi (binade x + 1)"
proof -
  have "\<lfloor>log 2 \<bar>x\<bar>\<rfloor> + 1 \<le> binade x + 1" by (simp add: binade_log)
  then have "(2::real) powi (\<lfloor>log 2 \<bar>x\<bar>\<rfloor> + 1) \<le> 2 powi (binade x + 1)"
    by (intro power_int_increasing) auto
  with floor_log2_bounds(2) [OF assms] show ?thesis by linarith
qed

lemma binade_lower:
  assumes "2 powi (- 1022) \<le> \<bar>x\<bar>"
  shows "2 powi binade x \<le> \<bar>x\<bar>"
proof -
  have "0 < (2::real) powi (- 1022)" by simp
  with assms have x: "x \<noteq> 0" by auto
  have "(2::real) powi (- 1022) < 2 powi (\<lfloor>log 2 \<bar>x\<bar>\<rfloor> + 1)"
    using assms floor_log2_bounds(2) [OF x] by linarith
  then have "- 1022 < \<lfloor>log 2 \<bar>x\<bar>\<rfloor> + 1"
    by (simp only: pow2_less_iff)
  then have "binade x = \<lfloor>log 2 \<bar>x\<bar>\<rfloor>" by (simp add: binade_log)
  with floor_log2_bounds(1) [OF x] show ?thesis by simp
qed

lemma binade_subnormal:
  assumes "x \<noteq> 0" "\<bar>x\<bar> < 2 powi (- 1022)"
  shows "binade x = - 1022"
proof -
  have "(2::real) powi \<lfloor>log 2 \<bar>x\<bar>\<rfloor> < 2 powi (- 1022)"
    using assms floor_log2_bounds(1) [OF assms(1)] by linarith
  then have "\<lfloor>log 2 \<bar>x\<bar>\<rfloor> < - 1022"
    by (simp only: pow2_less_iff)
  then show ?thesis by (simp add: binade_log)
qed

lemma binade_mono:
  assumes "x \<noteq> 0" "\<bar>x\<bar> \<le> \<bar>y\<bar>"
  shows "binade x \<le> binade y"
proof -
  have "log 2 \<bar>x\<bar> \<le> log 2 \<bar>y\<bar>" using assms by (intro log_mono) auto
  then have "\<lfloor>log 2 \<bar>x\<bar>\<rfloor> \<le> \<lfloor>log 2 \<bar>y\<bar>\<rfloor>" by (rule floor_mono)
  then show ?thesis by (simp add: binade_log)
qed

lemma binade_minus [simp]: "binade (- x) = binade x"
  by (simp add: binade_log)

lemma ulp_minus [simp]: "ulp (- x) = ulp x"
  by (simp add: ulp_def)

lemma pow2_binade: "2 powi binade x = 2 ^ 52 * ulp x" "2 powi (binade x + 1) = 2 ^ 53 * ulp x"
proof -
  have "(2::real) powi binade x = 2 powi (52 + (binade x - 52))" by simp
  also have "\<dots> = 2 powi 52 * 2 powi (binade x - 52)" by (rule power_int_add) simp
  finally show "2 powi binade x = 2 ^ 52 * ulp x" by (simp add: ulp_def)
  have "binade x + 1 = 53 + (binade x - 52)" by simp
  then have "(2::real) powi (binade x + 1) = 2 powi (53 + (binade x - 52))" by (rule arg_cong)
  also have "\<dots> = 2 powi 53 * 2 powi (binade x - 52)" by (rule power_int_add) simp
  finally show "2 powi (binade x + 1) = 2 ^ 53 * ulp x" by (simp add: ulp_def)
qed

lemma round_even_0 [simp]: "round_even 0 = 0"
  using round_even_of_int [of 0] by simp

lemma rounded_0 [simp]: "rounded 0 = 0"
  by (simp add: rounded_def)

lemma rounded_ge_grid:
  assumes "of_int n * ulp x \<le> x"
  shows "of_int n * ulp x \<le> rounded x"
proof -
  have "of_int n \<le> x / ulp x" using assms by (simp add: pos_le_divide_eq)
  then have "n \<le> round_even (x / ulp x)" by (rule round_even_ge)
  then have "real_of_int n \<le> of_int (round_even (x / ulp x))" by simp
  then show ?thesis unfolding rounded_def by (intro mult_right_mono) auto
qed

lemma rounded_le_grid:
  assumes "x \<le> of_int n * ulp x"
  shows "rounded x \<le> of_int n * ulp x"
proof -
  have "x / ulp x \<le> of_int n" using assms by (simp add: pos_divide_le_eq)
  then have "round_even (x / ulp x) \<le> n" by (rule round_even_le)
  then have "real_of_int (round_even (x / ulp x)) \<le> of_int n" by simp
  then show ?thesis unfolding rounded_def by (intro mult_right_mono) auto
qed

lemma rounded_nonneg: "0 \<le> x \<Longrightarrow> 0 \<le> rounded x"
  using rounded_ge_grid [of 0 x] by simp

lemma rounded_nonpos: "x \<le> 0 \<Longrightarrow> rounded x \<le> 0"
  using rounded_le_grid [of x 0] by simp

lemma rounded_upper_pos: "0 < x \<Longrightarrow> rounded x \<le> 2 powi (binade x + 1)"
  using rounded_le_grid [of x "2 ^ 53"] binade_upper [of x] by (simp add: pow2_binade)

lemma rounded_lower_pos: "0 < x \<Longrightarrow> 2 powi binade x \<le> x \<Longrightarrow> 2 powi binade x \<le> rounded x"
  using rounded_ge_grid [of "2 ^ 52" x] by (simp add: pow2_binade)

lemma rounded_lower_neg: "x < 0 \<Longrightarrow> - (2 powi (binade x + 1)) \<le> rounded x"
  using rounded_ge_grid [of "- (2 ^ 53)" x] binade_upper [of x] by (simp add: pow2_binade)

lemma rounded_upper_neg: "x < 0 \<Longrightarrow> x \<le> - (2 powi binade x) \<Longrightarrow> rounded x \<le> - (2 powi binade x)"
  using rounded_le_grid [of x "- (2 ^ 52)"] by (simp add: pow2_binade)

lemma binade_unclamped:
  assumes "x \<noteq> 0" "- 1022 < binade x"
  shows "2 powi binade x \<le> \<bar>x\<bar>"
proof -
  have "binade x = \<lfloor>log 2 \<bar>x\<bar>\<rfloor>" using assms(2) by (simp add: binade_log split: if_splits)
  with floor_log2_bounds(1) [OF assms(1)] show ?thesis by simp
qed

text \<open>Rounding is monotone.\<close>

lemma rounded_mono_same_ulp:
  assumes "x \<le> y" "ulp x = ulp y"
  shows "rounded x \<le> rounded y"
proof -
  have "x / ulp y \<le> y / ulp y" using assms(1) by (intro divide_right_mono) auto
  then have "round_even (x / ulp y) \<le> round_even (y / ulp y)" by (rule round_even_mono)
  then have "real_of_int (round_even (x / ulp y)) \<le> of_int (round_even (y / ulp y))" by simp
  then show ?thesis unfolding rounded_def assms(2) by (intro mult_right_mono) auto
qed

lemma rounded_mono_pos:
  assumes "0 < x" "x \<le> y"
  shows "rounded x \<le> rounded y"
proof -
  have le: "binade x \<le> binade y" using assms by (intro binade_mono) auto
  show ?thesis
  proof (cases "binade x = binade y")
    case True
    then show ?thesis using assms by (intro rounded_mono_same_ulp) (auto simp: ulp_def)
  next
    case False
    then have lt: "binade x + 1 \<le> binade y" using le by simp
    have "- 1022 < binade y" using lt binade_ge [of x] by linarith
    then have "2 powi binade y \<le> \<bar>y\<bar>" using assms by (intro binade_unclamped) auto
    then have "2 powi binade y \<le> rounded y" using assms by (intro rounded_lower_pos) auto
    moreover have "rounded x \<le> 2 powi (binade x + 1)" using assms by (intro rounded_upper_pos)
    moreover have "(2::real) powi (binade x + 1) \<le> 2 powi binade y"
      using lt by (simp only: pow2_le_iff)
    ultimately show ?thesis by linarith
  qed
qed

lemma rounded_mono_neg:
  assumes "y < 0" "x \<le> y"
  shows "rounded x \<le> rounded y"
proof -
  have le: "binade y \<le> binade x" using assms by (intro binade_mono) auto
  show ?thesis
  proof (cases "binade x = binade y")
    case True
    then show ?thesis using assms by (intro rounded_mono_same_ulp) (auto simp: ulp_def)
  next
    case False
    then have lt: "binade y + 1 \<le> binade x" using le by simp
    have "- 1022 < binade x" using lt binade_ge [of y] by linarith
    then have "2 powi binade x \<le> \<bar>x\<bar>" using assms by (intro binade_unclamped) auto
    then have "rounded x \<le> - (2 powi binade x)" using assms by (intro rounded_upper_neg) auto
    moreover have "- (2 powi (binade y + 1)) \<le> rounded y" using assms by (intro rounded_lower_neg)
    moreover have "(2::real) powi (binade y + 1) \<le> 2 powi binade x"
      using lt by (simp only: pow2_le_iff)
    ultimately show ?thesis by linarith
  qed
qed

lemma rounded_mono:
  assumes "x \<le> y"
  shows "rounded x \<le> rounded y"
proof -
  consider "0 < x" | "y < 0" | "x \<le> 0" "0 \<le> y" by linarith
  then show ?thesis
  proof cases
    case 1
    then show ?thesis using assms by (rule rounded_mono_pos)
  next
    case 2
    then show ?thesis using assms by (rule rounded_mono_neg)
  next
    case 3
    then show ?thesis using rounded_nonpos [of x] rounded_nonneg [of y] by linarith
  qed
qed

text \<open>Rounding leaves the representable values unchanged.\<close>

lemma rounded_exact:
  assumes x: "x = of_int m * 2 powi e" and m: "\<bar>m\<bar> < 2 ^ 53" and e: "- 1074 \<le> e"
  shows "rounded x = x"
proof (cases "x = 0")
  case True
  then show ?thesis by simp
next
  case False
  have "real_of_int \<bar>m\<bar> < real_of_int (2 ^ 53)" using m by (simp only: of_int_less_iff)
  then have m': "\<bar>real_of_int m\<bar> < 2 powi 53" by simp
  have "\<bar>x\<bar> = \<bar>real_of_int m\<bar> * 2 powi e" unfolding x by (simp add: abs_mult)
  also have "\<dots> < 2 powi 53 * 2 powi e"
    using m' by (intro mult_strict_right_mono) auto
  also have "\<dots> = 2 powi (53 + e)"
    by (rule power_int_add [symmetric]) simp
  finally have "(2::real) powi \<lfloor>log 2 \<bar>x\<bar>\<rfloor> < 2 powi (53 + e)"
    using floor_log2_bounds(1) [OF False] by linarith
  then have "\<lfloor>log 2 \<bar>x\<bar>\<rfloor> < 53 + e" by (simp only: pow2_less_iff)
  then have E: "binade x - 52 \<le> e" using e by (simp add: binade_log)
  define k where "k = nat (e - (binade x - 52))"
  have ek: "e = (binade x - 52) + int k" using E by (simp add: k_def)
  have "(2::real) powi e = 2 powi (binade x - 52) * 2 powi int k"
    by (subst ek) (rule power_int_add, simp)
  then have pe: "(2::real) powi e = ulp x * 2 ^ k" by (simp add: ulp_def)
  define u where "u = ulp x"
  have u: "u \<noteq> 0" by (simp add: u_def)
  have xu: "x = of_int (m * 2 ^ k) * u" by (subst x) (simp add: pe u_def)
  then have "x / u = of_int (m * 2 ^ k)" using u by simp
  then have "round_even (x / u) = m * 2 ^ k" by (simp only: round_even_of_int)
  then have "of_int (round_even (x / u)) * u = x" using xu by simp
  then show ?thesis by (simp add: rounded_def u_def)
qed

lemma round_even_bound: "\<bar>round_even (x / ulp x)\<bar> \<le> 2 ^ 53"
proof (cases "x = 0")
  case True
  then show ?thesis by simp
next
  case False
  have "\<bar>x\<bar> < 2 ^ 53 * ulp x" using binade_upper [OF False] by (simp add: pow2_binade)
  then have "\<bar>x\<bar> / ulp x < 2 ^ 53" by (simp add: pos_divide_less_eq)
  moreover have "\<bar>x / ulp x\<bar> = \<bar>x\<bar> / ulp x" by simp
  ultimately have "\<bar>x / ulp x\<bar> < 2 ^ 53" by (simp only:)
  then have "x / ulp x \<le> 2 ^ 53" "- (2 ^ 53) \<le> x / ulp x"
    by linarith+
  then have le: "x / ulp x \<le> of_int (2 ^ 53)" and ge: "of_int (- (2 ^ 53)) \<le> x / ulp x"
    by simp_all
  have "round_even (x / ulp x) \<le> 2 ^ 53" using le by (rule round_even_le)
  moreover have "- (2 ^ 53) \<le> round_even (x / ulp x)" using ge by (rule round_even_ge)
  ultimately show ?thesis by linarith
qed

lemma rounded_repr: "\<exists>m e. rounded x = of_int m * 2 powi e \<and> \<bar>m\<bar> < 2 ^ 53 \<and> - 1074 \<le> e"
proof -
  define r where "r = round_even (x / ulp x)"
  have r: "\<bar>r\<bar> \<le> 2 ^ 53" unfolding r_def by (rule round_even_bound)
  have rx: "rounded x = of_int r * 2 powi (binade x - 52)" by (simp add: rounded_def r_def ulp_def)
  show ?thesis
  proof (cases "\<bar>r\<bar> < 2 ^ 53")
    case True
    have "- 1074 \<le> binade x - 52" using binade_ge [of x] by linarith
    with rx True show ?thesis by blast
  next
    case False
    with r have "r = 2 ^ 53 \<or> r = - (2 ^ 53)" by linarith
    moreover have "(2::real) powi (binade x - 51) = 2 powi (1 + (binade x - 52))" by simp
    then have "(2::real) powi (binade x - 51) = 2 * 2 powi (binade x - 52)"
      using power_int_add [of "2::real" 1 "binade x - 52"] by simp
    ultimately have "rounded x = of_int (2 ^ 52) * 2 powi (binade x - 51)
        \<or> rounded x = of_int (- (2 ^ 52)) * 2 powi (binade x - 51)"
      using rx by auto
    moreover have "- 1074 \<le> binade x - 51" using binade_ge [of x] by linarith
    moreover have "\<bar>2 ^ 52 :: int\<bar> < 2 ^ 53" "\<bar>- (2 ^ 52) :: int\<bar> < 2 ^ 53" by simp_all
    ultimately show ?thesis by blast
  qed
qed

lemma rounded_idem [simp]: "rounded (rounded x) = rounded x"
  using rounded_repr [of x] rounded_exact by blast

lemma fl_Fin_iff:
  "fl x = Fin y \<longleftrightarrow> rounded x = y \<and> \<bar>y\<bar> < 2 ^ 1024 \<and> \<not> (y = 0 \<and> x < 0)"
  by (auto simp: fl_def inf_of_def zero_of_def)

lemma is_double_rounded: "is_double x \<longleftrightarrow> rounded x = x \<and> \<bar>x\<bar> < 2 ^ 1024"
  by (auto simp: is_double_def fl_Fin_iff)

lemma is_double_iff:
  "is_double x \<longleftrightarrow>
     (\<exists>m e. x = of_int m * 2 powi e \<and> \<bar>m\<bar> < 2 ^ 53 \<and> - 1074 \<le> e) \<and> \<bar>x\<bar> < 2 ^ 1024"
proof
  assume "is_double x"
  then have "rounded x = x" "\<bar>x\<bar> < 2 ^ 1024" by (simp_all add: is_double_rounded)
  with rounded_repr [of x] show
    "(\<exists>m e. x = of_int m * 2 powi e \<and> \<bar>m\<bar> < 2 ^ 53 \<and> - 1074 \<le> e) \<and> \<bar>x\<bar> < 2 ^ 1024"
    by simp
next
  assume "(\<exists>m e. x = of_int m * 2 powi e \<and> \<bar>m\<bar> < 2 ^ 53 \<and> - 1074 \<le> e) \<and> \<bar>x\<bar> < 2 ^ 1024"
  then show "is_double x" using rounded_exact by (auto simp: is_double_rounded)
qed

lemma is_doubleI:
  "x = of_int m * 2 powi e \<Longrightarrow> \<bar>m\<bar> < 2 ^ 53 \<Longrightarrow> - 1074 \<le> e \<Longrightarrow> \<bar>x\<bar> < 2 ^ 1024 \<Longrightarrow> is_double x"
  unfolding is_double_iff by blast

lemma fl_is_double: "fl x = Fin y \<Longrightarrow> is_double y"
  by (auto simp: fl_Fin_iff is_double_rounded)

lemma fl_exact: "is_double x \<Longrightarrow> fl x = Fin x"
  by (simp add: is_double_def)

lemma is_double_minus: "is_double x \<Longrightarrow> is_double (- x)"
proof -
  assume "is_double x"
  then obtain m e where "x = of_int m * 2 powi e" "\<bar>m\<bar> < 2 ^ 53" "- 1074 \<le> e" "\<bar>x\<bar> < 2 ^ 1024"
    unfolding is_double_iff by blast
  then show ?thesis by (intro is_doubleI [of _ "- m" e]) auto
qed

lemma is_double_of_int:
  assumes "\<bar>n\<bar> \<le> 2 ^ 53"
  shows "is_double (of_int n)"
proof (cases "\<bar>n\<bar> < 2 ^ 53")
  case True
  have "real_of_int \<bar>n\<bar> \<le> real_of_int (2 ^ 53)" using assms by (simp only: of_int_le_iff)
  then have "\<bar>real_of_int n\<bar> < 2 ^ 1024" by simp
  then show ?thesis using True by (intro is_doubleI [of _ n 0]) auto
next
  case False
  with assms have "n = 2 ^ 53 \<or> n = - (2 ^ 53)" by linarith
  then show ?thesis
  proof
    assume "n = 2 ^ 53"
    then show ?thesis by (intro is_doubleI [of _ "2 ^ 52" 1]) auto
  next
    assume "n = - (2 ^ 53)"
    then show ?thesis by (intro is_doubleI [of _ "- (2 ^ 52)" 1]) auto
  qed
qed

text \<open>Rounding does not cross a representable value.\<close>

lemma rounded_le: "is_double b \<Longrightarrow> x \<le> b \<Longrightarrow> rounded x \<le> b"
  using rounded_mono [of x b] by (simp add: is_double_rounded)

lemma rounded_ge: "is_double a \<Longrightarrow> a \<le> x \<Longrightarrow> a \<le> rounded x"
  using rounded_mono [of a x] by (simp add: is_double_rounded)

text \<open>Evaluation of a rounding.\<close>

lemma round_even_near:
  assumes "\<bar>q - of_int r\<bar> < 1 / 2"
  shows "round_even q = r"
proof -
  have "real_of_int (round_even q) < real_of_int (r + 1)"
    "real_of_int (r - 1) < real_of_int (round_even q)"
    using assms round_even_close [of q] by (simp_all, linarith+)
  then have "round_even q < r + 1" "r - 1 < round_even q" by (simp_all only: of_int_less_iff)
  then show ?thesis by linarith
qed

lemma round_even_tie: "q = of_int r + 1 / 2 \<Longrightarrow> round_even q = (if even r then r else r + 1)"
proof -
  assume q: "q = of_int r + 1 / 2"
  then have "\<lfloor>q\<rfloor> = r" by linarith
  then show ?thesis unfolding round_even_def Let_def using q by simp
qed

lemma rounded_eval:
  assumes "2 powi E \<le> \<bar>x\<bar>" "\<bar>x\<bar> < 2 powi (E + 1)" "- 1022 \<le> E"
    and "round_even (x / 2 powi (E - 52)) = r"
  shows "rounded x = of_int r * 2 powi (E - 52)"
  using binade_normal [OF assms(1-3)] assms(4) by (simp add: rounded_def ulp_def)

lemma fl_eval:
  assumes E: "2 powi E \<le> \<bar>x\<bar>" "\<bar>x\<bar> < 2 powi (E + 1)" "- 1022 \<le> E"
    and y: "y = of_int r * 2 powi (E - 52)" "y \<noteq> 0" "\<bar>y\<bar> < 2 ^ 1024"
    and near: "\<bar>x - y\<bar> < 2 powi (E - 53) \<or> (\<bar>x - y\<bar> = 2 powi (E - 53) \<and> even r)"
  shows "fl x = Fin y"
proof -
  define u :: real where "u = 2 powi (E - 52)"
  have u: "0 < u" by (simp add: u_def)
  have "(2::real) powi (E - 52) = 2 powi (1 + (E - 53))" by simp
  then have half: "2 powi (E - 53) = u / 2"
    using power_int_add [of "2::real" 1 "E - 53"] by (simp add: u_def)
  have diff: "x / u - of_int r = (x - y) / u" using u by (simp add: y(1) u_def field_simps)
  have "round_even (x / u) = r"
    using near
  proof
    assume "\<bar>x - y\<bar> < 2 powi (E - 53)"
    then have "\<bar>(x - y) / u\<bar> < 1 / 2" using u by (simp add: half field_simps)
    then show ?thesis by (intro round_even_near) (simp only: diff)
  next
    assume t: "\<bar>x - y\<bar> = 2 powi (E - 53) \<and> even r"
    then have "\<bar>(x - y) / u\<bar> = 1 / 2" using u by (simp add: half)
    then have "\<bar>x / u - of_int r\<bar> = 1 / 2" by (simp only: diff)
    then have "x / u - of_int r = 1 / 2 \<or> x / u - of_int r = - (1 / 2)" by linarith
    then have "x / u = of_int r + 1 / 2 \<or> x / u = of_int (r - 1) + 1 / 2"
    proof
      assume "x / u - of_int r = 1 / 2"
      then have "x / u = of_int r + 1 / 2" by linarith
      then show ?thesis ..
    next
      assume "x / u - of_int r = - (1 / 2)"
      then have "x / u = (of_int r - 1) + 1 / 2" by linarith
      then have "x / u = of_int (r - 1) + 1 / 2" by simp
      then show ?thesis ..
    qed
    then consider "x / u = of_int r + 1 / 2" | "x / u = of_int (r - 1) + 1 / 2"
      by blast
    then show ?thesis
    proof cases
      case 1
      then show ?thesis using t by (simp add: round_even_tie)
    next
      case 2
      then show ?thesis using t by (simp add: round_even_tie [of _ "r - 1"])
    qed
  qed
  then have "rounded x = y" using rounded_eval [OF E, of r] by (simp add: u_def y(1))
  then show ?thesis using y by (simp add: fl_Fin_iff)
qed

lemma fl_sqrt_eval:
  assumes E': "2 powi E * 2 powi E \<le> x" "x < 2 powi (E + 1) * 2 powi (E + 1)" "- 1022 \<le> E"
    and y: "y = of_int r * 2 powi (E - 52)" "\<bar>y\<bar> < 2 ^ 1024"
    and near': "2 powi (E - 53) < y" "(y - 2 powi (E - 53)) * (y - 2 powi (E - 53)) < x"
      "x < (y + 2 powi (E - 53)) * (y + 2 powi (E - 53))"
  shows "fl (sqrt x) = Fin y"
proof (rule fl_eval [where E = E and r = r])
  note E = E' [folded power2_eq_square] and near = near' [folded power2_eq_square]
  have p: "0 < (2::real) powi E" "0 < (2::real) powi (E + 1)" "0 < (2::real) powi (E - 53)"
    by simp_all
  have x: "0 \<le> x" using E(1) by (meson order_trans zero_le_power2)
  have "2 powi E \<le> sqrt x" using E(1) p(1) by (simp add: real_le_rsqrt)
  then show "2 powi E \<le> \<bar>sqrt x\<bar>" by simp
  have "sqrt x < 2 powi (E + 1)" using E(2) p(2) x by (simp add: real_less_lsqrt)
  then show "\<bar>sqrt x\<bar> < 2 powi (E + 1)" using x by simp
  show "- 1022 \<le> E" by fact
  show "y = of_int r * 2 powi (E - 52)" by fact
  show "y \<noteq> 0" using near(1) p(3) by linarith
  show "\<bar>y\<bar> < 2 ^ 1024" by fact
  have "y - 2 powi (E - 53) < sqrt x" using near(1,2) by (simp add: real_less_rsqrt)
  moreover have "0 \<le> y + 2 powi (E - 53)" using near(1) p(3) by linarith
  then have "sqrt x < y + 2 powi (E - 53)"
    using near(3) x by (intro real_less_lsqrt) auto
  ultimately have "\<bar>sqrt x - y\<bar> < 2 powi (E - 53)" by linarith
  then show "\<bar>sqrt x - y\<bar> < 2 powi (E - 53) \<or> (\<bar>sqrt x - y\<bar> = 2 powi (E - 53) \<and> even r)" ..
qed

text \<open>Underflow and overflow.\<close>

lemma fl_underflow:
  assumes "x \<noteq> 0" "\<bar>x\<bar> \<le> 2 powi (- 1075)"
  shows "fl x = zero_of (x < 0)"
proof -
  have "(2::real) powi (- 1075) < 2 powi (- 1022)" by (simp only: pow2_less_iff)
  with assms(2) have "\<bar>x\<bar> < 2 powi (- 1022)" by linarith
  then have "binade x = - 1022" using assms(1) by (intro binade_subnormal)
  then have u: "ulp x = 2 powi (- 1074)" by (simp add: ulp_def)
  have "(2::real) powi (- 1074) = 2 powi (1 + - 1075)" by simp
  also have "\<dots> = 2 * 2 powi (- 1075)"
    using power_int_add [of "2::real" 1 "- 1075"] by simp
  finally have half: "2 powi (- 1075) = ulp x / 2" by (simp add: u)
  have "\<bar>x / ulp x\<bar> = \<bar>x\<bar> / ulp x" by simp
  also have "\<dots> \<le> (ulp x / 2) / ulp x"
    using assms(2) unfolding half by (intro divide_right_mono) auto
  finally have q: "\<bar>x / ulp x\<bar> \<le> 1 / 2" by simp
  have "round_even (x / ulp x) = 0"
  proof -
    have "\<bar>x / ulp x\<bar> < 1 / 2 \<or> x / ulp x = 1 / 2 \<or> x / ulp x = - (1 / 2)"
      using q by linarith
    then consider "\<bar>x / ulp x - of_int 0\<bar> < 1 / 2" | "x / ulp x = of_int 0 + 1 / 2"
      | "x / ulp x = of_int (- 1) + 1 / 2"
      by auto
    then show ?thesis
    proof cases
      case 1
      then show ?thesis by (rule round_even_near)
    next
      case 2
      then show ?thesis by (simp only: round_even_tie) simp
    next
      case 3
      then show ?thesis by (simp only: round_even_tie) simp
    qed
  qed
  then have "rounded x = 0" by (simp add: rounded_def)
  then show ?thesis by (simp add: fl_def)
qed

lemma fl_overflow:
  assumes "2 ^ 1024 \<le> \<bar>x\<bar>"
  shows "fl x = inf_of (x < 0)"
proof -
  have p: "rounded (of_int 1 * 2 powi 1024) = of_int 1 * 2 powi 1024"
    by (rule rounded_exact [of _ 1 1024]) simp_all
  have n: "rounded (of_int (- 1) * 2 powi 1024) = of_int (- 1) * 2 powi 1024"
    by (rule rounded_exact [of _ "- 1" 1024]) simp_all
  consider "2 ^ 1024 \<le> x" | "x \<le> - (2 ^ 1024)" using assms by linarith
  then have "2 ^ 1024 \<le> \<bar>rounded x\<bar>"
  proof cases
    case 1
    then have "rounded (of_int 1 * 2 powi 1024) \<le> rounded x" by (intro rounded_mono) simp
    then show ?thesis unfolding p by simp
  next
    case 2
    then have "rounded x \<le> rounded (of_int (- 1) * 2 powi 1024)" by (intro rounded_mono) simp
    then show ?thesis unfolding n by simp
  qed
  then show ?thesis by (simp add: fl_def)
qed

text \<open>The values that a rounding can take.\<close>

lemma fl_not_NaN [simp]: "fl x \<noteq> NaN"
  by (simp add: fl_def inf_of_def zero_of_def)

lemma fl_cases:
  obtains "fl x = PInf" | "fl x = NInf" | "fl x = NZero" | "fl x = Fin 0"
    | y where "fl x = Fin y" "y \<noteq> 0" "is_double y"
proof (cases "fl x")
  case (Fin y)
  then have "is_double y" by (rule fl_is_double)
  with Fin that(4,5) show ?thesis by (cases "y = 0") auto
qed (use that in auto)

section \<open>Arithmetic on numbers\<close>

text \<open>
  Small integers and halves are representable, so that arithmetic on them is not rounded; and
  the operations on two finite operands, case by case.
\<close>

lemma is_double_0 [simp]: "is_double 0"
  using is_double_of_int [of 0] by simp

lemma is_double_1 [simp]: "is_double 1"
  using is_double_of_int [of 1] by simp

lemma is_double_neg_1 [simp]: "is_double (- 1)"
  using is_double_minus [OF is_double_1] .

lemma is_double_2 [simp]: "is_double 2" "is_double (- 2)"
proof -
  show "is_double 2" using is_double_of_int [of 2] by simp
  then show "is_double (- 2)" by (rule is_double_minus)
qed

lemma is_double_half [simp]: "is_double (1 / 2)" "is_double (- (1 / 2))"
proof -
  show "is_double (1 / 2)"
    by (rule is_doubleI [of _ 1 "- 1"]) (simp_all add: power_int_minus)
  then show "is_double (- (1 / 2))" by (rule is_double_minus)
qed

lemma is_double_numeral [simp]: "numeral k \<le> (9007199254740992::int) \<Longrightarrow> is_double (numeral k)"
  using is_double_of_int [of "numeral k"] by simp

lemma is_double_of_nat: "n \<le> 2 ^ 53 \<Longrightarrow> is_double (real n)"
  using is_double_of_int [of "int n"] by simp

lemma fl_0 [simp]: "fl 0 = Fin 0"
  by (rule fl_exact) simp

lemma fl_1 [simp]: "fl 1 = Fin 1"
  by (rule fl_exact) simp

lemma fl_numeral [simp]: "numeral k \<le> (9007199254740992::int) \<Longrightarrow> fl (numeral k) = Fin (numeral k)"
  by (rule fl_exact) simp

lemma fl_neg_numeral [simp]:
  "numeral k \<le> (9007199254740992::int) \<Longrightarrow> fl (- numeral k) = Fin (- numeral k)"
  by (rule fl_exact, rule is_double_minus) simp

lemma fl_neg_1 [simp]: "fl (- 1) = Fin (- 1)"
  by (rule fl_exact, rule is_double_minus) simp


lemma jmul_Fin:
  "jmul (Fin x) (Fin y) = (if x = 0 \<or> y = 0 then zero_of ((x < 0) \<noteq> (y < 0)) else fl (x * y))"
  by (simp add: jmul_def isNaN_def is_zero_def is_inf_def)

lemma jdiv_Fin:
  "jdiv (Fin x) (Fin y) =
     (if x = 0 \<and> y = 0 then NaN
      else if y = 0 then inf_of ((x < 0) \<noteq> (y < 0))
      else if x = 0 then zero_of ((x < 0) \<noteq> (y < 0))
      else fl (x / y))"
  by (simp add: jdiv_def isNaN_def is_zero_def is_inf_def)

lemma jsub_Fin:
  "jsub (Fin x) (Fin y) = (if y = 0 then Fin x else if x = y then Fin 0 else fl (x - y))"
  by (simp add: jsub_def)

lemma jmul_NaN [simp]: "jmul a NaN = NaN" "jmul NaN a = NaN"
  by (simp_all add: jmul_def isNaN_def)

text \<open>
  Some results as the language computes them: \<open>2^53 + 1\<close> is \<open>2^53\<close>; \<open>0.1 + 0.2\<close> is
  \<open>0.30000000000000004\<close> and \<open>0.6 / 0.4\<close> is \<open>1.4999999999999998\<close>, the decimals standing for the
  numbers nearest to them; \<open>2^1023 * 2\<close> overflows to \<open>Infinity\<close>; and the product of
  \<open>- 2^(-600)\<close> and \<open>2^(-600)\<close> underflows to the negative zero.
\<close>

lemma rounding_examples:
  "jadd (Fin 9007199254740992) (Fin 1) = Fin 9007199254740992"
  "jadd (Fin (3602879701896397 / 36028797018963968)) (Fin (3602879701896397 / 18014398509481984))
     = Fin (1351079888211149 / 4503599627370496)"
  "jdiv (Fin (5404319552844595 / 9007199254740992)) (Fin (3602879701896397 / 9007199254740992))
     = Fin (6755399441055743 / 4503599627370496)"
  "jmul (Fin (2 ^ 1023)) (Fin 2) = PInf"
  "jmul (Fin (- (2 powi (- 600)))) (Fin (2 powi (- 600))) = NZero"
proof -
  have "fl (9007199254740992 + 1) = Fin 9007199254740992"
    by (rule fl_eval [where E = 53 and r = 4503599627370496]) simp_all
  then show "jadd (Fin 9007199254740992) (Fin 1) = Fin 9007199254740992" by simp
  have "fl (3602879701896397 / 36028797018963968 + 3602879701896397 / 18014398509481984)
      = Fin (1351079888211149 / 4503599627370496)"
    by (rule fl_eval [where E = "- 2" and r = 5404319552844596]) simp_all
  then show "jadd (Fin (3602879701896397 / 36028797018963968)) (Fin (3602879701896397 / 18014398509481984))
      = Fin (1351079888211149 / 4503599627370496)" by simp
  have "fl ((5404319552844595 / 9007199254740992) / (3602879701896397 / 9007199254740992))
      = Fin (6755399441055743 / 4503599627370496)"
    by (rule fl_eval [where E = 0 and r = 6755399441055743]) simp_all
  then show "jdiv (Fin (5404319552844595 / 9007199254740992)) (Fin (3602879701896397 / 9007199254740992))
      = Fin (6755399441055743 / 4503599627370496)" by (simp add: jdiv_Fin)
  have "fl (2 ^ 1023 * 2) = inf_of (2 ^ 1023 * 2 < (0::real))"
    by (rule fl_overflow) simp
  then show "jmul (Fin (2 ^ 1023)) (Fin 2) = PInf" by (simp add: jmul_Fin inf_of_def)
  have "(2::real) powi (- 600) * 2 powi (- 600) = 2 powi (- 600 + - 600)"
    by (rule power_int_add [symmetric]) simp
  then have sq: "(2::real) powi (- 600) * 2 powi (- 600) = 2 powi (- 1200)" by simp
  have "(2::real) powi (- 1200) \<le> 2 powi (- 1075)" by (simp only: pow2_le_iff)
  then have "fl (- (2 powi (- 1200))) = zero_of (- (2 powi (- 1200)) < (0::real))"
    by (intro fl_underflow) auto
  then have "fl (- (2 powi (- 600) * 2 powi (- 600))) = NZero"
    by (simp only: sq) (simp add: zero_of_def)
  moreover have "jmul (Fin (- (2 powi (- 600)))) (Fin (2 powi (- 600)))
      = fl (- (2 powi (- 600)) * 2 powi (- 600))"
    unfolding jmul_def by (simp add: isNaN_def is_zero_def is_inf_def)
  ultimately show "jmul (Fin (- (2 powi (- 600)))) (Fin (2 powi (- 600))) = NZero" by simp
qed

section \<open>The factorial\<close>

text \<open>The equations of the function on a finite argument, on a stack with room for the call.\<close>

lemma factorial_neg: "x < 0 \<Longrightarrow> factorial (Suc d) (Fin x) = Some NaN"
  by simp

lemma factorial_0: "factorial (Suc d) (Fin 0) = Some (Fin 1)"
  by simp

lemma factorial_1: "factorial (Suc d) (Fin 1) = Some (Fin 1)"
  by simp

lemma factorial_rec:
  "0 < x \<Longrightarrow> x \<noteq> 1 \<Longrightarrow>
   factorial (Suc d) (Fin x) =
     Option.bind (factorial d (jsub (Fin x) (Fin 1))) (\<lambda>r. Some (jmul (Fin x) r))"
  by simp

text \<open>
  The argument of the recursive call. For a number \<open>x\<close> with \<open>1 \<le> x \<le> 2^53\<close> the difference
  \<open>x - 1\<close> is representable, so the subtraction is not rounded. A number below 1 is at most
  \<open>1 - 2^(-53)\<close>, so for \<open>0 < x < 1\<close> the difference, rounded or not, is negative. And a number
  that is not an integer is below \<open>2^52\<close>.
\<close>

lemma is_double_sub1:
  assumes d: "is_double x" and x: "1 \<le> x" "x \<le> 2 ^ 53"
  shows "is_double (x - 1)"
proof -
  from d obtain m e where me: "x = of_int m * 2 powi e" "\<bar>m\<bar> < 2 ^ 53" "- 1074 \<le> e"
    unfolding is_double_iff by blast
  have m0: "0 < m"
  proof (rule ccontr)
    assume "\<not> 0 < m"
    then have "real_of_int m \<le> 0" by simp
    then have "x \<le> 0" unfolding me(1) by (intro mult_nonpos_nonneg) auto
    with x show False by linarith
  qed
  have small: "\<bar>x - 1\<bar> < 2 ^ 1024"
  proof -
    have "\<bar>x - 1\<bar> \<le> 2 ^ 53" using x by simp
    also have "(2::real) ^ 53 < 2 ^ 1024" by simp
    finally show ?thesis .
  qed
  show ?thesis
  proof (cases "0 \<le> e")
    case True
    define N where "N = m * 2 ^ nat e"
    have "(2::real) powi e = 2 ^ nat e" using True by (simp add: power_int_def)
    then have xN: "x = of_int N" by (simp add: me(1) N_def)
    then have "N \<le> 2 ^ 53" "1 \<le> N" using x by (simp_all flip: of_int_le_iff)
    then have "\<bar>N - 1\<bar> \<le> 2 ^ 53" by simp
    then have "is_double (of_int (N - 1))" by (rule is_double_of_int)
    then show ?thesis by (simp add: xN)
  next
    case False
    define k where "k = nat (- e)"
    have pe: "(2::real) powi e = 1 / 2 ^ k" using False by (simp add: power_int_def k_def field_simps)
    have "x - 1 = of_int (m - 2 ^ k) * 2 powi e" unfolding me(1) pe by (simp add: field_simps)
    moreover have "\<bar>m - 2 ^ k\<bar> < 2 ^ 53"
    proof -
      have "1 \<le> of_int m / (2::real) ^ k" using x(1) unfolding me(1) pe by simp
      then have "(2::real) ^ k \<le> of_int m" by (simp add: pos_le_divide_eq)
      then have "real_of_int (2 ^ k) \<le> of_int m" by simp
      then have "2 ^ k \<le> m" by (simp only: of_int_le_iff)
      moreover have "(0::int) < 2 ^ k" by simp
      ultimately show ?thesis using me(2) by linarith
    qed
    ultimately show ?thesis using me(3) small by (rule is_doubleI)
  qed
qed

lemma jsub_one_exact:
  assumes "is_double x" "1 \<le> x" "x \<le> 2 ^ 53"
  shows "jsub (Fin x) (Fin 1) = Fin (x - 1)"
  using fl_exact [OF is_double_sub1 [OF assms]] by (simp add: jsub_Fin)

lemma is_double_below_one:
  assumes d: "is_double x" and x: "x < 1"
  shows "x \<le> 1 - 2 powi (- 53)"
proof (cases "x < 1 / 2")
  case True
  have "(2::real) powi (- 53) \<le> 2 powi (- 1)" by (simp only: pow2_le_iff)
  then have "(2::real) powi (- 53) \<le> 1 / 2" by (simp add: power_int_minus)
  with True show ?thesis by linarith
next
  case False
  then have "2 powi (- 1) \<le> \<bar>x\<bar>" "\<bar>x\<bar> < 2 powi (- 1 + 1)" using x by (simp_all add: power_int_minus)
  then have b: "binade x = - 1" by (rule binade_normal) simp
  then have u: "ulp x = 2 powi (- 53)" by (simp add: ulp_def)
  define r where "r = round_even (x / ulp x)"
  have xr: "x = of_int r * 2 powi (- 53)"
    using d by (simp add: is_double_rounded rounded_def r_def u)
  have "of_int r * 2 powi (- 53) < (1::real)" using x xr by simp
  then have "real_of_int r < 2 ^ 53" by (simp add: power_int_minus field_simps)
  then have "real_of_int r < real_of_int (2 ^ 53)" by simp
  then have "r < 2 ^ 53" by (simp only: of_int_less_iff)
  then have "r \<le> 2 ^ 53 - 1" by simp
  then have "real_of_int r \<le> real_of_int (2 ^ 53 - 1)" by (simp only: of_int_le_iff)
  then have "real_of_int r * 2 powi (- 53) \<le> real_of_int (2 ^ 53 - 1) * 2 powi (- 53)"
    by (intro mult_right_mono) auto
  also have "\<dots> = 1 - 2 powi (- 53)" by (simp add: power_int_minus field_simps)
  finally show ?thesis using xr by simp
qed

lemma jsub_one_below:
  assumes "is_double x" "0 < x" "x < 1"
  shows "\<exists>y<0. jsub (Fin x) (Fin 1) = Fin y"
proof -
  have le: "x - 1 \<le> - (2 powi (- 53))" using is_double_below_one [OF assms(1,3)] by simp
  have "is_double (of_int (- 1) * 2 powi (- 53))"
    by (rule is_doubleI [of _ "- 1" "- 53"]) (simp_all add: power_int_minus)
  then have "is_double (- (2 powi (- 53)))" by simp
  then have up: "rounded (x - 1) \<le> - (2 powi (- 53))" using le by (rule rounded_le)
  have "is_double (- 1)" using is_double_minus [OF is_double_1] .
  then have lo: "- 1 \<le> rounded (x - 1)" using assms(2) by (intro rounded_ge) auto
  have neg: "rounded (x - 1) < 0"
  proof -
    have "0 < (2::real) powi (- 53)" by simp
    with up show ?thesis by linarith
  qed
  have "\<bar>rounded (x - 1)\<bar> \<le> 1" using lo neg by simp
  also have "(1::real) < 2 ^ 1024" by simp
  finally have "fl (x - 1) = Fin (rounded (x - 1))" using neg by (simp add: fl_Fin_iff)
  then have "jsub (Fin x) (Fin 1) = Fin (rounded (x - 1))" using assms(3) by (simp add: jsub_Fin)
  with neg show ?thesis by blast
qed

lemma is_double_non_integer:
  assumes "is_double x" "x \<notin> \<int>"
  shows "\<bar>x\<bar> < 2 ^ 52"
proof -
  from assms(1) obtain m e where me: "x = of_int m * 2 powi e" "\<bar>m\<bar> < 2 ^ 53" "- 1074 \<le> e"
    unfolding is_double_iff by blast
  have e: "e < 0"
  proof (rule ccontr)
    assume "\<not> e < 0"
    then have "(2::real) powi e = of_int (2 ^ nat e)" by (simp add: power_int_def)
    then have "x = of_int (m * 2 ^ nat e)" by (simp add: me(1))
    then have "x \<in> \<int>" by (metis Ints_of_int)
    with assms(2) show False by simp
  qed
  have "real_of_int \<bar>m\<bar> < real_of_int (2 ^ 53)" using me(2) by (simp only: of_int_less_iff)
  then have m: "\<bar>real_of_int m\<bar> < 2 ^ 53" by simp
  have "e \<le> - 1" using e by simp
  then have "(2::real) powi e \<le> 2 powi (- 1)" by (simp only: pow2_le_iff)
  then have p: "(2::real) powi e \<le> 1 / 2" by (simp add: power_int_minus)
  have "\<bar>x\<bar> = \<bar>real_of_int m\<bar> * 2 powi e" by (simp add: me(1) abs_mult)
  also have "\<dots> \<le> \<bar>real_of_int m\<bar> * (1 / 2)" using p by (intro mult_left_mono) auto
  also have "\<dots> < 2 ^ 53 * (1 / 2)" using m by (intro mult_strict_right_mono) auto
  finally show ?thesis by simp
qed

text \<open>
  Hence the recursion on a number \<open>x \<le> 2^53\<close> reaches a base case after at most \<open>\<lceil>x\<rceil>\<close> further
  calls. The result is NaN if the chain \<open>x, x - 1, \<dots>\<close> ends below 0, and a product of positive
  factors otherwise, an infinity when it overflows.
\<close>

lemma jmul_pos_NaN: "0 < x \<Longrightarrow> jmul (Fin x) r = NaN \<longleftrightarrow> r = NaN"
  by (cases r) (auto simp: jmul_def isNaN_def is_zero_def is_inf_def inf_of_def zero_of_def)

lemma factorial_real:
  "is_double x \<Longrightarrow> x \<le> real k \<Longrightarrow> x \<le> 2 ^ 53 \<Longrightarrow> k < d \<Longrightarrow>
   \<exists>y. factorial d (Fin x) = Some y \<and> (y = NaN \<longleftrightarrow> x < 0 \<or> x \<notin> \<int>)"
proof (induction k arbitrary: x d)
  case 0
  then obtain d' where d: "d = Suc d'" by (cases d) auto
  consider "x < 0" | "x = 0" using 0 by fastforce
  then show ?case by cases (simp_all add: d)
next
  case (Suc k)
  then obtain d' where d: "d = Suc d'" and d': "k < d'" by (cases d) auto
  consider "x < 0" | "x = 0" | "x = 1" | "0 < x" "x < 1" | "1 < x" by linarith
  then show ?case
  proof cases
    case 1
    then show ?thesis by (simp add: d)
  next
    case 2
    then show ?thesis by (simp add: d)
  next
    case 3
    then show ?thesis by (simp add: d)
  next
    case 4
    from jsub_one_below [OF Suc.prems(1) 4] obtain y where y: "y < 0" "jsub (Fin x) (Fin 1) = Fin y"
      by blast
    obtain d'' where d'': "d' = Suc d''" using d' by (cases d') auto
    have "factorial d' (Fin y) = Some NaN" using y(1) by (simp add: d'')
    then have "factorial d (Fin x) = Some NaN"
      unfolding d using 4 y(2) by (simp add: factorial_rec)
    moreover have "x \<notin> \<int>"
    proof
      assume "x \<in> \<int>"
      then obtain j :: int where "x = of_int j" by (auto elim: Ints_cases)
      with 4 have "0 < j" "j < 1" by simp_all
      then show False by simp
    qed
    ultimately show ?thesis by simp
  next
    case 5
    have sub: "jsub (Fin x) (Fin 1) = Fin (x - 1)"
      using Suc.prems(1,3) 5 by (intro jsub_one_exact) auto
    have dbl: "is_double (x - 1)" using Suc.prems(1,3) 5 by (intro is_double_sub1) auto
    have "x - 1 \<le> real k" "x - 1 \<le> 2 ^ 53" using Suc.prems(2,3) by simp_all
    from Suc.IH [OF dbl this d'] obtain y where
      y: "factorial d' (Fin (x - 1)) = Some y" "y = NaN \<longleftrightarrow> x - 1 < 0 \<or> x - 1 \<notin> \<int>"
      by blast
    have rec: "factorial d (Fin x) = Some (jmul (Fin x) y)"
      unfolding d using 5 sub y(1) by (simp add: factorial_rec)
    have "x - 1 \<notin> \<int> \<longleftrightarrow> x \<notin> \<int>"
      by (metis Ints_1 Ints_add Ints_diff diff_add_cancel)
    then have "jmul (Fin x) y = NaN \<longleftrightarrow> x < 0 \<or> x \<notin> \<int>"
      using 5 y(2) by (simp add: jmul_pos_NaN)
    with rec show ?thesis by simp
  qed
qed

text \<open>
  The factorials up to \<open>22!\<close> are representable: those up to \<open>18!\<close> are below \<open>2^53\<close>, and
  \<open>19!\<close> to \<open>22!\<close> are multiples of \<open>2^16\<close> to \<open>2^19\<close> with a quotient below \<open>2^53\<close>. So no
  product is rounded up to \<open>factorial(22)\<close>.
\<close>

lemma fact_18_bound: "n \<le> 18 \<Longrightarrow> fact n \<le> (2 ^ 53 :: nat)"
proof -
  assume "n \<le> 18"
  then have "(fact n :: nat) \<le> fact 18" by (rule fact_mono)
  also have "(fact 18 :: nat) \<le> 2 ^ 53" by (simp add: fact_numeral)
  finally show ?thesis .
qed

lemma fact_double:
  assumes "n \<le> 22"
  shows "is_double (fact n)"
proof -
  consider "n \<le> 18" | "n = 19" | "n = 20" | "n = 21" | "n = 22" using assms by linarith
  then show ?thesis
  proof cases
    case 1
    then have "is_double (real (fact n))" by (intro is_double_of_nat fact_18_bound)
    then show ?thesis by simp
  next
    case 2
    show ?thesis unfolding 2
      by (rule is_doubleI [of _ 1856156927625 16]) (simp_all add: fact_numeral)
  next
    case 3
    show ?thesis unfolding 3
      by (rule is_doubleI [of _ 9280784638125 18]) (simp_all add: fact_numeral)
  next
    case 4
    show ?thesis unfolding 4
      by (rule is_doubleI [of _ 194896477400625 18]) (simp_all add: fact_numeral)
  next
    case 5
    show ?thesis unfolding 5
      by (rule is_doubleI [of _ 2143861251406875 19]) (simp_all add: fact_numeral)
  qed
qed

lemma factorial_nat_exact:
  "n \<le> 22 \<Longrightarrow> n < d \<Longrightarrow> factorial d (Fin (real n)) = Some (Fin (fact n))"
proof (induction n arbitrary: d)
  case 0
  then obtain d' where "d = Suc d'" by (cases d) auto
  then show ?case by simp
next
  case (Suc n)
  then obtain d' where d: "d = Suc d'" and d': "n < d'" by (cases d) auto
  show ?case
  proof (cases "n = 0")
    case True
    then show ?thesis by (simp add: d)
  next
    case False
    have n53: "real (Suc n) \<le> 2 ^ 53" using Suc.prems(1) by simp
    have "is_double (real (Suc n))" using Suc.prems(1) by (intro is_double_of_nat) simp
    then have "jsub (Fin (real (Suc n))) (Fin 1) = Fin (real (Suc n) - 1)"
      using n53 by (intro jsub_one_exact) auto
    then have sub: "jsub (Fin (real (Suc n))) (Fin 1) = Fin (real n)" by simp
    have ih: "factorial d' (Fin (real n)) = Some (Fin (fact n))"
      using Suc.prems(1) d' by (intro Suc.IH) auto
    have "fl (real (Suc n) * fact n) = Fin (fact (Suc n))"
      using fl_exact [OF fact_double [OF Suc.prems(1)]] by (simp add: algebra_simps)
    then have mul: "jmul (Fin (real (Suc n))) (Fin (fact n)) = Fin (fact (Suc n))"
      by (simp add: jmul_Fin del: fact_Suc of_nat_Suc)
    have "factorial d (Fin (real (Suc n))) =
        Option.bind (factorial d' (jsub (Fin (real (Suc n))) (Fin 1)))
          (\<lambda>r. Some (jmul (Fin (real (Suc n))) r))"
      unfolding d using False by (intro factorial_rec) auto
    then show ?thesis by (simp only: sub ih mul Option.bind.simps)
  qed
qed

lemma fl_factorial_23: "fl 25852016738884976640000 = Fin 25852016738884978212864"
  by (rule fl_eval [where E = 74 and r = 6163601097794766]) simp_all

text \<open>
  C9, as stated, fails: the product \<open>23 * 22!\<close> is not representable, and \<open>factorial(23)\<close> is
  the neighbouring number \<open>25852016738884978212864\<close>, at every depth of the stack that lets the
  call return.
\<close>

theorem factorial_23_rounded:
  "(\<forall>d. factorial (24 + d) (Fin 23) = Some (Fin 25852016738884978212864))
   \<and> (fact 23 :: real) = 25852016738884976640000"
proof -
  have "factorial (24 + d) (Fin 23) = Some (Fin 25852016738884978212864)" for d
  proof -
    have "factorial (23 + d) (Fin (real 22)) = Some (Fin (fact 22))"
      by (rule factorial_nat_exact) simp_all
    then have "factorial (23 + d) (Fin 22) = Some (Fin 1124000727777607680000)"
      by (simp add: fact_numeral)
    moreover have "factorial (24 + d) (Fin 23) =
        Option.bind (factorial (23 + d) (jsub (Fin 23) (Fin 1))) (\<lambda>r. Some (jmul (Fin 23) r))"
      using factorial_rec [of 23 "23 + d"] by simp
    ultimately show ?thesis by (simp add: jsub_Fin jmul_Fin fl_factorial_23)
  qed
  then show ?thesis by (simp add: fact_numeral)
qed

text \<open>
  C9, amended. The contract of \<open>factorial\<close> on an integer \<open>n\<close>, on a stack with room for the
  call: the result is NaN when \<open>n < 0\<close>; it is 1 when \<open>n\<close> is 0 or 1; for \<open>1 < n \<le> 2^53\<close> it is
  the product, rounded to the nearest number, of \<open>n\<close> and the result of the call on \<open>n - 1\<close>;
  hence for \<open>0 \<le> n \<le> 22\<close>, on a stack with room for \<open>n\<close> more calls, the result is the
  factorial of \<open>n\<close>.
\<close>

theorem factorial_contract:
  fixes n :: int
  shows "(n < 0 \<longrightarrow> factorial (Suc d) (Fin (of_int n)) = Some NaN)
       \<and> (n = 0 \<or> n = 1 \<longrightarrow> factorial (Suc d) (Fin (of_int n)) = Some (Fin 1))
       \<and> (1 < n \<and> n \<le> 2 ^ 53 \<longrightarrow> factorial (Suc d) (Fin (of_int n)) =
             Option.bind (factorial d (Fin (of_int (n - 1)))) (\<lambda>r. Some (jmul (Fin (of_int n)) r)))
       \<and> (0 \<le> n \<and> n \<le> 22 \<and> nat n \<le> d \<longrightarrow>
             factorial (Suc d) (Fin (of_int n)) = Some (Fin (fact (nat n))))"
proof (intro conjI impI)
  assume "n < 0"
  then show "factorial (Suc d) (Fin (of_int n)) = Some NaN" by (simp add: factorial_neg)
next
  assume "n = 0 \<or> n = 1"
  then show "factorial (Suc d) (Fin (of_int n)) = Some (Fin 1)" by auto
next
  assume n: "1 < n \<and> n \<le> 2 ^ 53"
  then have "real_of_int n \<le> real_of_int (2 ^ 53)" by (simp only: of_int_le_iff)
  then have le: "real_of_int n \<le> 2 ^ 53" by simp
  have "\<bar>n\<bar> \<le> 2 ^ 53" using n by simp
  then have "is_double (of_int n)" by (rule is_double_of_int)
  then have "jsub (Fin (of_int n)) (Fin 1) = Fin (of_int n - 1)"
    using n le by (intro jsub_one_exact) auto
  moreover have "factorial (Suc d) (Fin (of_int n)) =
      Option.bind (factorial d (jsub (Fin (of_int n)) (Fin 1))) (\<lambda>r. Some (jmul (Fin (of_int n)) r))"
    using n by (intro factorial_rec) auto
  ultimately show "factorial (Suc d) (Fin (of_int n)) =
      Option.bind (factorial d (Fin (of_int (n - 1)))) (\<lambda>r. Some (jmul (Fin (of_int n)) r))"
    by simp
next
  assume n: "0 \<le> n \<and> n \<le> 22 \<and> nat n \<le> d"
  then have "of_int n = real (nat n)" by simp
  moreover have "factorial (Suc d) (Fin (real (nat n))) = Some (Fin (fact (nat n)))"
    using n by (intro factorial_nat_exact) auto
  ultimately show "factorial (Suc d) (Fin (of_int n)) = Some (Fin (fact (nat n)))"
    by (simp only:)
qed

theorem factorial_contract_witness:
  "(0::int) \<le> 5 \<and> (5::int) \<le> 22 \<and> nat 5 \<le> (5::nat) \<and> factorial (Suc 5) (Fin 5) = Some (Fin 120)
   \<and> (- 1::int) < 0 \<and> factorial (Suc 5) (Fin (- 1)) = Some NaN
   \<and> (1::int) < 5 \<and> (5::int) \<le> 2 ^ 53
   \<and> factorial (Suc 5) (Fin 5) = Option.bind (factorial 5 (Fin 4)) (\<lambda>r. Some (jmul (Fin 5) r))"
  using factorial_contract [of 5 5] factorial_contract [of "- 1" 5]
  by (auto simp: fact_numeral)

text \<open>
  Two arguments on which the recursion makes no progress: \<open>2^53 + 4\<close>, where \<open>x - 1\<close> lies
  half-way between \<open>x - 2\<close> and \<open>x\<close> and is rounded to \<open>x\<close>, whose significand is even; and the
  number nearest to \<open>10^300\<close>, whose neighbours are \<open>2^944\<close> apart.
\<close>

lemma fl_stuck: "fl 9007199254740995 = Fin 9007199254740996"
  by (rule fl_eval [where E = 53 and r = 4503599627370498]) simp_all

lemma is_double_stuck: "is_double 9007199254740996"
  by (rule is_doubleI [of _ 4503599627370498 1]) simp_all

lemma jsub_stuck: "jsub (Fin 9007199254740996) (Fin 1) = Fin 9007199254740996"
  by (simp add: jsub_Fin fl_stuck)

lemma recursion_stuck: "factorial depth (Fin 9007199254740996) = None"
  by (induction depth) (simp_all add: jsub_stuck)

lemma factorial_1e300:
  "fl (10 ^ 300) = Fin (6724873095247260 * 2 ^ 944)
   \<and> jsub (Fin (6724873095247260 * 2 ^ 944)) (Fin 1) = Fin (6724873095247260 * 2 ^ 944)
   \<and> (\<forall>depth. factorial depth (Fin (6724873095247260 * 2 ^ 944)) = None)"
proof -
  define X :: real where "X = 6724873095247260 * 2 ^ 944"
  have n: "fl (10 ^ 300) = Fin X"
    unfolding X_def by (rule fl_eval [where E = 996 and r = 6724873095247260]) simp_all
  have "fl (X - 1) = Fin X"
    unfolding X_def by (rule fl_eval [where E = 996 and r = 6724873095247260]) simp_all
  moreover have X: "1 < X" by (simp add: X_def)
  ultimately have s: "jsub (Fin X) (Fin 1) = Fin X" by (simp add: jsub_Fin)
  have "factorial depth (Fin X) = None" for depth
    using X by (induction depth) (simp_all add: s)
  with n s show ?thesis unfolding X_def by blast
qed

text \<open>
  C10, as stated, fails: at \<open>2^53 + 4\<close> the difference \<open>x - 1\<close> is rounded back to \<open>x\<close>, the
  argument never decreases, and the recursion exhausts every stack.
\<close>

theorem factorial_stuck:
  "is_double 9007199254740996
   \<and> jsub (Fin 9007199254740996) (Fin 1) = Fin 9007199254740996
   \<and> (\<forall>depth. factorial depth (Fin 9007199254740996) = None)"
  by (simp add: is_double_stuck jsub_stuck recursion_stuck)

text \<open>
  C10, amended. On every number \<open>x\<close> that is at most \<open>2^53\<close> or is not an integer (no number
  that is not an integer exceeds \<open>2^52\<close>), and on a stack with room for more than \<open>\<lceil>x\<rceil>\<close> nested
  calls, \<open>factorial\<close> returns; the result is NaN exactly when \<open>x\<close> is negative or not an
  integer; and for \<open>x \<ge> 1\<close> the argument of the recursive call is exactly \<open>x - 1\<close>.
\<close>

theorem factorial_terminates:
  assumes "is_double x" "x \<le> 2 ^ 53 \<or> x \<notin> \<int>" "nat \<lceil>x\<rceil> < depth"
  shows "(\<exists>y. factorial depth (Fin x) = Some y \<and> (y = NaN \<longleftrightarrow> x < 0 \<or> x \<notin> \<int>))
       \<and> (1 \<le> x \<longrightarrow> jsub (Fin x) (Fin 1) = Fin (x - 1))"
proof -
  have le: "x \<le> 2 ^ 53"
  proof (cases "x \<in> \<int>")
    case True
    with assms(2) show ?thesis by simp
  next
    case False
    then have "\<bar>x\<bar> < 2 ^ 52" using assms(1) by (intro is_double_non_integer)
    then show ?thesis by simp
  qed
  have "x \<le> real (nat \<lceil>x\<rceil>)" by linarith
  then have "\<exists>y. factorial depth (Fin x) = Some y \<and> (y = NaN \<longleftrightarrow> x < 0 \<or> x \<notin> \<int>)"
    using assms(1) le assms(3) by (intro factorial_real) auto
  moreover have "1 \<le> x \<longrightarrow> jsub (Fin x) (Fin 1) = Fin (x - 1)"
    using assms(1) le by (auto intro: jsub_one_exact)
  ultimately show ?thesis by simp
qed

lemma five_halves_not_int: "(5 / 2 :: real) \<notin> \<int>"
proof
  assume "(5 / 2 :: real) \<in> \<int>"
  then obtain k :: int where "(5 / 2 :: real) = of_int k" by (auto elim: Ints_cases)
  then have "(5 :: real) = of_int (2 * k)" by simp
  then have "(5 :: int) = 2 * k" by linarith
  then show False by presburger
qed

theorem factorial_terminates_witness:
  "is_double (5 / 2) \<and> (5 / 2 :: real) \<notin> \<int> \<and> nat \<lceil>5 / 2 :: real\<rceil> < 4
   \<and> factorial 4 (Fin (5 / 2)) = Some NaN
   \<and> jsub (Fin (5 / 2)) (Fin 1) = Fin (5 / 2 - 1)"
proof -
  have d: "is_double (5 / 2)" by (rule is_doubleI [of _ 5 "- 1"]) (simp_all add: power_int_minus)
  have c: "nat \<lceil>5 / 2 :: real\<rceil> < 4" by simp
  have n: "(5 / 2 :: real) \<le> 2 ^ 53 \<or> (5 / 2 :: real) \<notin> \<int>" using five_halves_not_int by simp
  from factorial_terminates [OF d n c] d c five_halves_not_int show ?thesis by auto
qed

section \<open>The binomial coefficient\<close>

text \<open>The product of the specification is the binomial coefficient.\<close>

lemma mult_formula_pos: "k \<le> n \<Longrightarrow> 0 < mult_formula (real n) k"
  unfolding mult_formula_def by (intro prod_pos) auto





























section \<open>The power function\<close>

lemma jeq_floor: "jeq (Math_floor (Fin b)) (Fin b) \<longleftrightarrow> b \<in> \<int>"
  by (auto simp: Ints_def)

lemma half_not_int: "(1 / 2 :: real) \<notin> \<int>"
proof
  assume "(1 / 2 :: real) \<in> \<int>"
  then obtain k :: int where "(1 / 2 :: real) = of_int k" by (auto elim: Ints_cases)
  then have "(1 :: real) = of_int (2 * k)" by simp
  then have "(1 :: int) = 2 * k" by linarith
  then show False by presburger
qed

text \<open>
  C7, as stated, fails at \<open>a = 0\<close>: for the exponent \<open>1 / 2\<close>, which is not an integer, the
  result is 0 and not NaN, whatever the functions of the language return.
\<close>

theorem pow_zero_base:
  "(1 / 2 :: real) \<notin> \<int> \<and> (0 :: real) \<le> 0 \<and> (\<forall>lib. pow lib (Fin 0) (Fin (1 / 2)) = Fin 0)"
  by (simp add: pow_def half_not_int)

text \<open>
  C7, amended. The contract of \<open>pow\<close> on real \<open>a\<close> and \<open>b\<close>: \<open>pow(0, 0)\<close> is 1; \<open>pow(0, b)\<close> is
  0 for every \<open>b \<noteq> 0\<close>, also a negative one and one that is not an integer; for \<open>a \<noteq> 0\<close> and an
  integer \<open>b\<close> the result is that of \<^verbatim>\<open>Math.pow(a, b)\<close>; for \<open>a > 0\<close> and \<open>b\<close> not an integer it is
  that of \<^verbatim>\<open>Math.exp\<close> on the rounded product of \<open>b\<close> and \<^verbatim>\<open>Math.log(a)\<close>; and for \<open>a < 0\<close> and
  \<open>b\<close> not an integer it is NaN.
\<close>

theorem pow_contract:
  fixes a b :: real
  shows "pow lib (Fin 0) (Fin 0) = Fin 1
       \<and> (b \<noteq> 0 \<longrightarrow> pow lib (Fin 0) (Fin b) = Fin 0)
       \<and> (a \<noteq> 0 \<and> b \<in> \<int> \<longrightarrow> pow lib (Fin a) (Fin b) = Math_pow lib (Fin a) (Fin b))
       \<and> (0 < a \<and> b \<notin> \<int> \<longrightarrow>
            pow lib (Fin a) (Fin b) = Math_exp lib (jmul (Fin b) (Math_log lib (Fin a))))
       \<and> (a < 0 \<and> b \<notin> \<int> \<longrightarrow> pow lib (Fin a) (Fin b) = NaN)"
proof (intro conjI impI)
  show "pow lib (Fin 0) (Fin 0) = Fin 1" by (simp add: pow_def)
next
  assume "b \<noteq> 0"
  then show "pow lib (Fin 0) (Fin b) = Fin 0" by (simp add: pow_def)
next
  assume "a \<noteq> 0 \<and> b \<in> \<int>"
  then show "pow lib (Fin a) (Fin b) = Math_pow lib (Fin a) (Fin b)"
    using jeq_floor [of b] by (simp add: pow_def)
next
  assume "0 < a \<and> b \<notin> \<int>"
  then show "pow lib (Fin a) (Fin b) = Math_exp lib (jmul (Fin b) (Math_log lib (Fin a)))"
    using jeq_floor [of b] by (simp add: pow_def jgt_def)
next
  assume "a < 0 \<and> b \<notin> \<int>"
  then show "pow lib (Fin a) (Fin b) = NaN"
    using jeq_floor [of b] by (simp add: pow_def jgt_def)
qed

theorem pow_contract_witness:
  "\<forall>lib. pow lib (Fin 0) (Fin 0) = Fin 1
   \<and> (3 :: real) \<noteq> 0 \<and> pow lib (Fin 0) (Fin 3) = Fin 0
   \<and> (- 1 :: real) \<noteq> 0 \<and> pow lib (Fin 0) (Fin (- 1)) = Fin 0
   \<and> (2 :: real) \<noteq> 0 \<and> (3 :: real) \<in> \<int> \<and> pow lib (Fin 2) (Fin 3) = Math_pow lib (Fin 2) (Fin 3)
   \<and> (0 :: real) < 2 \<and> (1 / 2 :: real) \<notin> \<int>
   \<and> pow lib (Fin 2) (Fin (1 / 2)) = Math_exp lib (jmul (Fin (1 / 2)) (Math_log lib (Fin 2)))
   \<and> (- 2 :: real) < 0 \<and> pow lib (Fin (- 2)) (Fin (1 / 2)) = NaN"
proof
  fix lib
  show "pow lib (Fin 0) (Fin 0) = Fin 1
   \<and> (3 :: real) \<noteq> 0 \<and> pow lib (Fin 0) (Fin 3) = Fin 0
   \<and> (- 1 :: real) \<noteq> 0 \<and> pow lib (Fin 0) (Fin (- 1)) = Fin 0
   \<and> (2 :: real) \<noteq> 0 \<and> (3 :: real) \<in> \<int> \<and> pow lib (Fin 2) (Fin 3) = Math_pow lib (Fin 2) (Fin 3)
   \<and> (0 :: real) < 2 \<and> (1 / 2 :: real) \<notin> \<int>
   \<and> pow lib (Fin 2) (Fin (1 / 2)) = Math_exp lib (jmul (Fin (1 / 2)) (Math_log lib (Fin 2)))
   \<and> (- 2 :: real) < 0 \<and> pow lib (Fin (- 2)) (Fin (1 / 2)) = NaN"
    using pow_contract [of lib 3 2] pow_contract [of lib "- 1" 2] pow_contract [of lib "1 / 2" 2]
      pow_contract [of lib "1 / 2" "- 2"] half_not_int
    by simp
qed

section \<open>The two paths of the matrix-vector product\<close>

declare matVecMult_unrolled_loop.simps [simp del] accumulate.simps [simp del]
  matVecMult_general_loop.simps [simp del]

lemma aset_append [simp]: "length xs = i \<Longrightarrow> aset xs i v = xs @ [v]"
  by (simp add: aset_def)

lemma unrolled_loop_map:
  "i \<le> length mat \<Longrightarrow> length res = i \<Longrightarrow>
   matVecMult_unrolled_loop mat vec i res = res @ map (\<lambda>row. row3 row vec) (drop i mat)"
proof (induction mat vec i res rule: matVecMult_unrolled_loop.induct)
  case (1 mat vec i res)
  show ?case
  proof (cases "i < length mat")
    case True
    have "drop i mat = mat ! i # drop (Suc i) mat"
      using True by (simp add: Cons_nth_drop_Suc)
    then show ?thesis
      using True 1 by (subst matVecMult_unrolled_loop.simps) simp
  next
    case False
    then show ?thesis using 1 by (subst matVecMult_unrolled_loop.simps) simp
  qed
qed

lemma general_loop_map:
  "i \<le> length mat \<Longrightarrow> length res = i \<Longrightarrow>
   matVecMult_general_loop mat vec i res =
     res @ map (\<lambda>row. accumulate row vec (length vec) 0 (Fin 0)) (drop i mat)"
proof (induction mat vec i res rule: matVecMult_general_loop.induct)
  case (1 mat vec i res)
  show ?case
  proof (cases "i < length mat")
    case True
    have "drop i mat = mat ! i # drop (Suc i) mat"
      using True by (simp add: Cons_nth_drop_Suc)
    then show ?thesis
      using True 1 by (subst matVecMult_general_loop.simps) simp
  next
    case False
    then show ?thesis using 1 by (subst matVecMult_general_loop.simps) simp
  qed
qed

lemma matVecMult_unrolled_map: "matVecMult_unrolled mat vec = map (\<lambda>row. row3 row vec) mat"
  by (simp add: matVecMult_unrolled_def unrolled_loop_map)

lemma matVecMult_general_map:
  "matVecMult_general mat vec = map (\<lambda>row. accumulate row vec (length vec) 0 (Fin 0)) mat"
  by (simp add: matVecMult_general_def general_loop_map)

lemma accumulate_3:
  "accumulate row vec 3 0 s =
     jadd (jadd (jadd s (jmul (nth_num row 0) (nth_num vec 0))) (jmul (nth_num row 1) (nth_num vec 1)))
          (jmul (nth_num row 2) (nth_num vec 2))"
  by (simp add: accumulate.simps eval_nat_numeral)

text \<open>
  Adding a rounded value to the positive zero returns it unchanged, unless it is the negative
  zero: the first step \<open>s = 0 + p\<close> of the loop loses nothing but the sign of a zero.
\<close>

lemma jadd_zero_fl: "jadd (Fin 0) (fl x) = (if fl x = NZero then Fin 0 else fl x)"
  by (cases x rule: fl_cases) (simp_all add: fl_exact)

lemma jadd_zero_jmul: "jadd (Fin 0) (jmul a b) = (if jmul a b = NZero then Fin 0 else jmul a b)"
  unfolding jmul_def by (auto simp: jadd_zero_fl inf_of_def zero_of_def)

lemma jadd_NZero_left [simp]: "jadd NZero p = p"
  by (cases p) simp_all

lemma sum3:
  assumes z: "\<And>p. p \<in> {p0, p1, p2} \<Longrightarrow> jadd (Fin 0) p = (if p = NZero then Fin 0 else p)"
  shows "same_number (jadd (jadd p0 p1) p2) (jadd (jadd (jadd (Fin 0) p0) p1) p2)"
    and "jadd (jadd p0 p1) p2 = jadd (jadd (jadd (Fin 0) p0) p1) p2 \<longleftrightarrow>
         \<not> (p0 = NZero \<and> p1 = NZero \<and> p2 = NZero)"
    and "p0 = NZero \<and> p1 = NZero \<and> p2 = NZero \<Longrightarrow>
         jadd (jadd p0 p1) p2 = NZero \<and> jadd (jadd (jadd (Fin 0) p0) p1) p2 = Fin 0"
proof -
  have z0: "jadd (Fin 0) p0 = (if p0 = NZero then Fin 0 else p0)"
    and z1: "jadd (Fin 0) p1 = (if p1 = NZero then Fin 0 else p1)"
    and z2: "jadd (Fin 0) p2 = (if p2 = NZero then Fin 0 else p2)"
    by (simp_all add: z)
  show "same_number (jadd (jadd p0 p1) p2) (jadd (jadd (jadd (Fin 0) p0) p1) p2)"
    by (cases "p0 = NZero"; cases "p1 = NZero"; cases "p2 = NZero")
      (simp_all add: z0 z1 z2 same_number_def is_zero_def)
  show "jadd (jadd p0 p1) p2 = jadd (jadd (jadd (Fin 0) p0) p1) p2 \<longleftrightarrow>
      \<not> (p0 = NZero \<and> p1 = NZero \<and> p2 = NZero)"
    by (cases "p0 = NZero"; cases "p1 = NZero"; cases "p2 = NZero") (simp_all add: z0 z1 z2)
  show "p0 = NZero \<and> p1 = NZero \<and> p2 = NZero \<Longrightarrow>
      jadd (jadd p0 p1) p2 = NZero \<and> jadd (jadd (jadd (Fin 0) p0) p1) p2 = Fin 0"
    by simp
qed

lemma row_paths:
  shows "same_number (row3 row vec) (accumulate row vec 3 0 (Fin 0))"
    and "row3 row vec = accumulate row vec 3 0 (Fin 0) \<longleftrightarrow> \<not> neg_zero_products row vec"
    and "neg_zero_products row vec \<Longrightarrow>
         row3 row vec = NZero \<and> accumulate row vec 3 0 (Fin 0) = Fin 0"
  unfolding row3_def accumulate_3 neg_zero_products_def
  by (rule sum3, auto simp: jadd_zero_jmul)+

lemma matVecMult_doc_example:
  "matVecMult [[Fin 2, Fin 1], [Fin 1, Fin 3]] [Fin 4, Fin 5] = [Fin 13, Fin 19]"
  by (simp add: matVecMult_def matVecMult_general_map accumulate.simps nth_num_def jmul_Fin)

text \<open>
  A product that is too small to be represented underflows to a zero: with \<open>x = 2^(-600)\<close>,
  say, the two paths differ on the row \<open>(- x, - x, - x)\<close> and the vector \<open>(x, x, x)\<close>.
\<close>

lemma matVecMult_underflow:
  assumes "0 < x" "x * x \<le> 2 powi (- 1075)"
  shows "matVecMult [[Fin (- x), Fin (- x), Fin (- x)]] [Fin x, Fin x, Fin x] = [NZero]
       \<and> matVecMult_general [[Fin (- x), Fin (- x), Fin (- x)]] [Fin x, Fin x, Fin x] = [Fin 0]"
proof -
  have "fl (- (x * x)) = zero_of (- (x * x) < 0)"
    using assms by (intro fl_underflow) auto
  then have "fl (- (x * x)) = NZero" using assms(1) by (simp add: zero_of_def)
  then have p: "jmul (Fin (- x)) (Fin x) = NZero"
    using assms(1) by (simp add: jmul_def isNaN_def is_zero_def is_inf_def)
  show ?thesis
    by (simp add: matVecMult_def matVecMult_unrolled_map matVecMult_general_map row3_def
        accumulate.simps nth_num_def p)
qed

text \<open>
  C5, as stated, fails: on the row \<open>(-1, -1, -1)\<close> and the vector \<open>(0, 0, 0)\<close> every product is
  the negative zero; the unrolled sum is the negative zero, while the loop, which starts from
  the positive zero, yields the positive zero.
\<close>

theorem matVecMult_paths_differ:
  "matVecMult [[Fin (- 1), Fin (- 1), Fin (- 1)]] [Fin 0, Fin 0, Fin 0] = [NZero]
   \<and> matVecMult_general [[Fin (- 1), Fin (- 1), Fin (- 1)]] [Fin 0, Fin 0, Fin 0] = [Fin 0]"
  by (simp add: matVecMult_def matVecMult_unrolled_map matVecMult_general_map row3_def
      accumulate.simps nth_num_def jmul_Fin zero_of_def)

text \<open>
  C5, amended. For a vector of length 3 the unrolled path and the accumulation loop give, row
  by row, the same number up to the sign of zero, and they give identical results exactly when
  no row has its three products, as the code computes them, all equal to the negative zero. On
  a row that has, the unrolled path gives the negative zero and the loop the positive zero.
\<close>

theorem matVecMult_paths_agree:
  assumes "length vec = 3"
  shows "list_all2 same_number (matVecMult mat vec) (matVecMult_general mat vec)
       \<and> (matVecMult mat vec = matVecMult_general mat vec \<longleftrightarrow>
            (\<forall>row \<in> set mat. \<not> neg_zero_products row vec))
       \<and> (\<forall>i < length mat. neg_zero_products (mat ! i) vec \<longrightarrow>
            matVecMult mat vec ! i = NZero \<and> matVecMult_general mat vec ! i = Fin 0)"
proof -
  have u: "matVecMult mat vec = map (\<lambda>row. row3 row vec) mat"
    using assms by (simp add: matVecMult_def matVecMult_unrolled_map)
  have g: "matVecMult_general mat vec = map (\<lambda>row. accumulate row vec 3 0 (Fin 0)) mat"
    using assms by (simp add: matVecMult_general_map)
  have "list_all2 same_number (matVecMult mat vec) (matVecMult_general mat vec)"
    unfolding u g by (simp add: list_all2_map1 list_all2_map2 list_all2_same row_paths(1))
  moreover have "matVecMult mat vec = matVecMult_general mat vec \<longleftrightarrow>
      (\<forall>row \<in> set mat. \<not> neg_zero_products row vec)"
    unfolding u g by (simp add: row_paths(2))
  moreover have "\<forall>i < length mat. neg_zero_products (mat ! i) vec \<longrightarrow>
      matVecMult mat vec ! i = NZero \<and> matVecMult_general mat vec ! i = Fin 0"
    unfolding u g by (simp add: row_paths(3))
  ultimately show ?thesis by simp
qed

theorem matVecMult_paths_agree_witness:
  "length [Fin 4, Fin 5, Fin 1] = 3
   \<and> matVecMult [[Fin 2, Fin 1, Fin 0], [Fin 1, Fin 3, Fin 1]] [Fin 4, Fin 5, Fin 1]
       = matVecMult_general [[Fin 2, Fin 1, Fin 0], [Fin 1, Fin 3, Fin 1]] [Fin 4, Fin 5, Fin 1]
   \<and> length [Fin 0, Fin 0, Fin 0] = 3
   \<and> neg_zero_products ([[Fin 1, Fin 2, Fin 3], [Fin (- 1), Fin (- 1), Fin (- 1)]] ! 1) [Fin 0, Fin 0, Fin 0]
   \<and> matVecMult [[Fin 1, Fin 2, Fin 3], [Fin (- 1), Fin (- 1), Fin (- 1)]] [Fin 0, Fin 0, Fin 0] ! 1 = NZero
   \<and> matVecMult_general [[Fin 1, Fin 2, Fin 3], [Fin (- 1), Fin (- 1), Fin (- 1)]] [Fin 0, Fin 0, Fin 0] ! 1 = Fin 0"
proof -
  have "\<forall>row \<in> set [[Fin 2, Fin 1, Fin 0], [Fin 1, Fin 3, Fin 1]].
          \<not> neg_zero_products row [Fin 4, Fin 5, Fin 1]"
    by (simp add: neg_zero_products_def nth_num_def jmul_Fin zero_of_def)
  moreover have "neg_zero_products ([[Fin 1, Fin 2, Fin 3], [Fin (- 1), Fin (- 1), Fin (- 1)]] ! 1)
      [Fin 0, Fin 0, Fin 0]"
    by (simp add: neg_zero_products_def nth_num_def jmul_Fin zero_of_def)
  ultimately show ?thesis
    using matVecMult_paths_agree [of "[Fin 4, Fin 5, Fin 1]" "[[Fin 2, Fin 1, Fin 0], [Fin 1, Fin 3, Fin 1]]"]
      matVecMult_paths_agree [of "[Fin 0, Fin 0, Fin 0]" "[[Fin 1, Fin 2, Fin 3], [Fin (- 1), Fin (- 1), Fin (- 1)]]"]
    by simp
qed

section \<open>Construction and transposition of matrices\<close>

declare matrix_fill.simps [simp del] matrix_rows.simps [simp del]
  transpose_cols.simps [simp del] transpose_rows.simps [simp del]

lemma array_put_in_range [simp]: "i < length xs \<Longrightarrow> array_put xs i v = xs[i := v]"
  by (simp add: array_put_def)

lemma matrix_fill_closed:
  "length row = m \<Longrightarrow> j \<le> m \<Longrightarrow>
   matrix_fill row m j init = take j row @ replicate (m - j) (Some init)"
proof (induction row m j init rule: matrix_fill.induct)
  case (1 row m j init)
  show ?case
  proof (cases "j < m")
    case True
    then have "matrix_fill row m j init = matrix_fill (row[j := Some init]) m (Suc j) init"
      using 1 by (subst matrix_fill.simps) simp
    also have "\<dots> = take (Suc j) (row[j := Some init]) @ replicate (m - Suc j) (Some init)"
      using True 1 by simp
    also have "take (Suc j) (row[j := Some init]) = take j row @ [Some init]"
      using True 1 by (simp add: take_Suc_conv_app_nth)
    also have "(take j row @ [Some init]) @ replicate (m - Suc j) (Some init)
        = take j row @ replicate (m - j) (Some init)"
      using True by (simp add: replicate_Suc [symmetric] Suc_diff_Suc del: replicate_Suc)
    finally show ?thesis .
  next
    case False
    then show ?thesis using 1 by (subst matrix_fill.simps) simp
  qed
qed

lemma matrix_rows_closed:
  "length r = n \<Longrightarrow> i \<le> n \<Longrightarrow>
   matrix_rows r n m i init = take i r @ replicate (n - i) (Some (replicate m (Some init)))"
proof (induction r n m i init rule: matrix_rows.induct)
  case (1 r n m i init)
  let ?row = "Some (replicate m (Some init))"
  have fill: "matrix_fill (new_Array m) m 0 init = replicate m (Some init)"
    by (simp add: matrix_fill_closed new_Array_def)
  show ?case
  proof (cases "i < n")
    case True
    then have "matrix_rows r n m i init = matrix_rows (r[i := ?row]) n m (Suc i) init"
      using 1 by (subst matrix_rows.simps) (simp add: fill)
    also have "\<dots> = take (Suc i) (r[i := ?row]) @ replicate (n - Suc i) ?row"
      using True 1 by (simp add: fill)
    also have "take (Suc i) (r[i := ?row]) = take i r @ [?row]"
      using True 1 by (simp add: take_Suc_conv_app_nth)
    also have "(take i r @ [?row]) @ replicate (n - Suc i) ?row = take i r @ replicate (n - i) ?row"
      using True by (simp add: replicate_Suc [symmetric] Suc_diff_Suc del: replicate_Suc)
    finally show ?thesis .
  next
    case False
    then show ?thesis using 1 by (subst matrix_rows.simps) simp
  qed
qed

lemma matrix_closed: "matrix n m init = replicate n (Some (replicate m (Some (or_zero init))))"
  by (simp add: matrix_def matrix_rows_closed new_Array_def)

lemma transpose_assign_defined:
  assumes "rows_defined M" "j < length M" "i < length MT" "MT ! i = Some t" "j < length t"
  shows "transpose_assign M MT i j = Some (MT[i := Some (t[j := cell M j i])])"
proof -
  from assms(1,2) obtain r where r: "M ! j = Some r"
    unfolding rows_defined_def by (metis nth_mem not_None_eq)
  show ?thesis
    using assms r by (simp add: transpose_assign_def array_get_def cell_def)
qed

lemma transpose_cols_closed:
  assumes "rows_defined M" "m = length M" "i < length MT" "MT ! i = Some t" "length t = m" "j \<le> m"
  shows "transpose_cols M MT m i j =
           Some (MT[i := Some (take j t @ map (\<lambda>j'. cell M j' i) [j..<m])])"
  using assms
proof (induction M MT m i j arbitrary: t rule: transpose_cols.induct)
  case (1 M MT m i j)
  show ?case
  proof (cases "j < m")
    case True
    let ?t = "t[j := cell M j i]"
    let ?MT = "MT[i := Some ?t]"
    have as: "transpose_assign M MT i j = Some ?MT"
      using 1 True by (intro transpose_assign_defined) auto
    have "transpose_cols M MT m i j = transpose_cols M ?MT m i (Suc j)"
      using True by (subst transpose_cols.simps) (simp add: as)
    also have "\<dots> = Some (?MT[i := Some (take (Suc j) ?t @ map (\<lambda>j'. cell M j' i) [Suc j..<m])])"
      using True 1(2-) by (intro 1(1) [OF True as]) auto
    also have "take (Suc j) ?t = take j t @ [cell M j i]"
      using True 1 by (simp add: take_Suc_conv_app_nth)
    also have "(take j t @ [cell M j i]) @ map (\<lambda>j'. cell M j' i) [Suc j..<m]
        = take j t @ map (\<lambda>j'. cell M j' i) [j..<m]"
      using True by (simp add: upt_conv_Cons)
    finally show ?thesis by simp
  next
    case False
    then have "j = m" using 1 by simp
    moreover have "MT[i := Some t] = MT" using 1 by (metis list_update_id)
    ultimately show ?thesis using 1 by (subst transpose_cols.simps) simp
  qed
qed

lemma transpose_rows_closed:
  assumes "rows_defined M" "m = length M" "length MT = n" "i \<le> n"
    and "\<forall>k < n. \<exists>t. MT ! k = Some t \<and> length t = m"
  shows "transpose_rows M MT n m i =
           Some (take i MT @ map (\<lambda>i'. Some (map (\<lambda>j. cell M j i') [0..<m])) [i..<n])"
  using assms
proof (induction M MT n m i rule: transpose_rows.induct)
  case (1 M MT n m i)
  show ?case
  proof (cases "i < n")
    case True
    then obtain t where t: "MT ! i = Some t" "length t = m" using 1 by blast
    let ?row = "Some (map (\<lambda>j. cell M j i) [0..<m])"
    let ?MT = "MT[i := ?row]"
    have cols: "transpose_cols M MT m i 0 = Some ?MT"
      using transpose_cols_closed [of M m i MT t 0] 1 True t by simp
    have "transpose_rows M MT n m i = transpose_rows M ?MT n m (Suc i)"
      using True by (subst transpose_rows.simps) (simp add: cols)
    also have "\<dots> = Some (take (Suc i) ?MT @ map (\<lambda>i'. Some (map (\<lambda>j. cell M j i') [0..<m])) [Suc i..<n])"
    proof (intro 1(1) [OF True cols])
      show "\<forall>k<n. \<exists>t. ?MT ! k = Some t \<and> length t = m"
        using 1(6) True 1(4) by (auto simp: nth_list_update)
    qed (use 1 True in auto)
    also have "take (Suc i) ?MT = take i MT @ [?row]"
      using True 1 by (simp add: take_Suc_conv_app_nth)
    also have "(take i MT @ [?row]) @ map (\<lambda>i'. Some (map (\<lambda>j. cell M j i') [0..<m])) [Suc i..<n]
        = take i MT @ map (\<lambda>i'. Some (map (\<lambda>j. cell M j i') [0..<m])) [i..<n]"
      using True by (simp add: upt_conv_Cons)
    finally show ?thesis .
  next
    case False
    then have "i = n" using 1 by simp
    then show ?thesis using 1 by (subst transpose_rows.simps) simp
  qed
qed

lemma matTranspose_closed:
  assumes "rows_defined M"
  shows "matTranspose M =
           Some (map (\<lambda>i. Some (map (\<lambda>j. cell M j i) [0..<length M])) [0..<columns M])"
proof (cases M)
  case Nil
  then show ?thesis
    by (simp add: matTranspose_def columns_def matrix_closed transpose_rows.simps)
next
  case (Cons slot M')
  with assms obtain r where r: "slot = Some r"
    by (cases slot) (auto simp: rows_defined_def)
  have n: "columns M = length r" using Cons r by (simp add: columns_def)
  have "matTranspose M = transpose_rows M (matrix (length r) (length M) None) (length r) (length M) 0"
    using Cons r by (simp add: matTranspose_def array_get_def)
  also have "\<dots> = Some (take 0 (matrix (length r) (length M) None)
      @ map (\<lambda>i'. Some (map (\<lambda>j. cell M j i') [0..<length M])) [0..<length r])"
    using assms by (intro transpose_rows_closed) (auto simp: matrix_closed)
  finally show ?thesis by (simp add: n)
qed

lemma rectangular_rows_defined: "rectangular M \<Longrightarrow> rows_defined M"
  by (auto simp: rectangular_def rows_defined_def)

lemma rectangular_row:
  "rectangular M \<Longrightarrow> i < length M \<Longrightarrow> \<exists>r. M ! i = Some r \<and> length r = columns M"
  by (auto simp: rectangular_def dest!: nth_mem)

lemma columns_map:
  "columns (map (\<lambda>i. Some (f i)) [0..<c]) = (if c = 0 then 0 else length (f 0))"
  by (cases c) (simp_all add: columns_def upt_conv_Cons del: upt_Suc)

text \<open>
  C4, as stated, fails on a matrix with rows of length zero: two empty rows transpose to the
  matrix without rows, which transposes to itself.
\<close>

theorem matTranspose_twice_counterexample:
  "rectangular [Some [], Some ([] :: jsnum array)]
   \<and> matTranspose [Some [], Some []] = Some []
   \<and> matTranspose [] = Some []
   \<and> Option.bind (matTranspose [Some [], Some []]) matTranspose \<noteq> Some [Some [], Some []]"
  by (simp add: rectangular_def columns_def matTranspose_closed rows_defined_def)

text \<open>
  C4, amended. For every rectangular matrix \<open>M\<close>, transposing twice succeeds and gives back
  \<open>M\<close>, row for row and entry for entry, when \<open>M\<close> has no rows or its rows are not empty; when
  \<open>M\<close> has rows and they are empty, it gives the matrix without rows.
\<close>

theorem matTranspose_twice:
  assumes "rectangular M"
  shows "Option.bind (matTranspose M) matTranspose = Some (if columns M = 0 then [] else M)"
proof -
  let ?m = "length M" and ?c = "columns M"
  let ?MT = "map (\<lambda>i. Some (map (\<lambda>j. cell M j i) [0..<?m])) [0..<?c]"
  have M: "rows_defined M" using assms by (rule rectangular_rows_defined)
  have MT: "rows_defined ?MT" by (auto simp: rows_defined_def)
  have 1: "matTranspose M = Some ?MT" using M by (rule matTranspose_closed)
  have 2: "matTranspose ?MT =
      Some (map (\<lambda>i. Some (map (\<lambda>j. cell ?MT j i) [0..<?c])) [0..<columns ?MT])"
    using matTranspose_closed [OF MT] by simp
  show ?thesis
  proof (cases "?c = 0")
    case True
    then show ?thesis using 1 2 by (simp add: columns_def)
  next
    case False
    then have cols: "columns ?MT = ?m" by (simp add: columns_map)
    have "map (\<lambda>i. Some (map (\<lambda>j. cell ?MT j i) [0..<?c])) [0..<?m] = M"
    proof (rule nth_equalityI)
      show "length (map (\<lambda>i. Some (map (\<lambda>j. cell ?MT j i) [0..<?c])) [0..<?m]) = length M"
        by simp
    next
      fix i assume "i < length (map (\<lambda>i. Some (map (\<lambda>j. cell ?MT j i) [0..<?c])) [0..<?m])"
      then have i: "i < ?m" by simp
      then obtain r where r: "M ! i = Some r" "length r = ?c"
        using rectangular_row [OF assms] by blast
      have "map (\<lambda>j. cell ?MT j i) [0..<?c] = map (\<lambda>j. r ! j) [0..<?c]"
        using i r by (auto simp: cell_def array_get_def)
      also have "\<dots> = r" using r(2) by (metis map_nth)
      finally show "map (\<lambda>i. Some (map (\<lambda>j. cell ?MT j i) [0..<?c])) [0..<?m] ! i = M ! i"
        using i r by simp
    qed
    then show ?thesis using 1 2 cols False by simp
  qed
qed

theorem matTranspose_twice_witness:
  "rectangular [Some [Some (Fin 1), Some (Fin 2), Some (Fin 3)], Some [Some (Fin 4), Some (Fin 5), Some (Fin 6)]]
   \<and> matTranspose [Some [Some (Fin 1), Some (Fin 2), Some (Fin 3)], Some [Some (Fin 4), Some (Fin 5), Some (Fin 6)]]
       = Some [Some [Some (Fin 1), Some (Fin 4)], Some [Some (Fin 2), Some (Fin 5)], Some [Some (Fin 3), Some (Fin 6)]]
   \<and> matTranspose [Some [Some (Fin 1), Some (Fin 4)], Some [Some (Fin 2), Some (Fin 5)], Some [Some (Fin 3), Some (Fin 6)]]
       = Some [Some [Some (Fin 1), Some (Fin 2), Some (Fin 3)], Some [Some (Fin 4), Some (Fin 5), Some (Fin 6)]]"
proof -
  let ?M = "[Some [Some (Fin 1), Some (Fin 2), Some (Fin 3)], Some [Some (Fin 4), Some (Fin 5), Some (Fin 6)]]"
  have r: "rectangular ?M" by (simp add: rectangular_def columns_def)
  have t: "matTranspose ?M
       = Some [Some [Some (Fin 1), Some (Fin 4)], Some [Some (Fin 2), Some (Fin 5)], Some [Some (Fin 3), Some (Fin 6)]]"
    by (simp add: matTranspose_def matrix_def new_Array_def array_put_def array_get_def
        transpose_assign_def matrix_fill.simps matrix_rows.simps transpose_cols.simps transpose_rows.simps)
  from matTranspose_twice [OF r] t r show ?thesis by (simp add: columns_def)
qed

section \<open>Normalization of a stdform\<close>

lemmas norm_defs = normalize_jxg_def normalize_line_def normalize_large_def normalize_small_def
  nth_num_def aset_def Let_def

lemma nth_num_aset: "nth_num (aset xs i v) j = (if j = i then v else nth_num xs j)"
  by (auto simp: nth_num_def aset_def nth_append)

lemma length_aset: "length (aset xs i v) = max (length xs) (Suc i)"
  by (auto simp: aset_def)

lemma list_eq_nth_num:
  assumes "length xs = length ys" "\<And>j. nth_num xs j = nth_num ys j"
  shows "xs = ys"
proof (rule nth_equalityI)
  show "length xs = length ys" by fact
next
  fix i assume "i < length xs"
  then show "xs ! i = ys ! i" using assms(1) assms(2) [of i] by (simp add: nth_num_def)
qed

lemma length_normalize_line: "length (normalize_line s) = max (length s) 5"
  by (simp add: normalize_line_def Let_def length_aset)

lemma length_normalize_large: "length (normalize_large r s) = max (length s) 5"
  by (simp add: normalize_large_def Let_def length_aset)

lemma length_normalize_small: "length (normalize_small r s) = max (length s) 5"
  by (simp add: normalize_small_def Let_def length_aset)

lemma max_5_to_8: "max (max (max (max (l::nat) 6) 7) 8) 5 = max l 8"
  by linarith

lemma length_normalize: "length (normalize_jxg s) = max (length s) 8"
  by (simp add: normalize_jxg_def Let_def length_normalize_line length_normalize_large
      length_normalize_small length_aset max_5_to_8 del: max.absorb1 max.absorb2 max.absorb3 max.absorb4)

lemma nth_normalize_line:
  "nth_num (normalize_line s) j =
     (if j = 0 then jdiv (nth_num s 0) (Math_sqrt (jadd (jmul (nth_num s 1) (nth_num s 1)) (jmul (nth_num s 2) (nth_num s 2))))
      else if j = 1 then jdiv (nth_num s 1) (Math_sqrt (jadd (jmul (nth_num s 1) (nth_num s 1)) (jmul (nth_num s 2) (nth_num s 2))))
      else if j = 2 then jdiv (nth_num s 2) (Math_sqrt (jadd (jmul (nth_num s 1) (nth_num s 1)) (jmul (nth_num s 2) (nth_num s 2))))
      else if j = 3 then Fin 0
      else if j = 4 then Fin 1
      else nth_num s j)"
  by (simp add: normalize_line_def Let_def nth_num_aset)

lemma nth_normalize_large:
  "nth_num (normalize_large r s) j =
     (if j = 0 then jdiv (jsub (jadd (jmul (nth_num s 6) (nth_num s 6)) (jmul (nth_num s 7) (nth_num s 7))) (jmul r r)) (jmul (Fin 2) r)
      else if j = 1 then jdiv (jneg (nth_num s 6)) r
      else if j = 2 then jdiv (jneg (nth_num s 7)) r
      else if j = 3 then jdiv (Fin 1) (jmul (Fin 2) r)
      else if j = 4 then Fin 1
      else nth_num s j)"
  by (simp add: normalize_large_def Let_def nth_num_aset)

lemma nth_normalize_small:
  "nth_num (normalize_small r s) j =
     (if j = 0 then jmul (jmul (if jle r (Fin 0) then Fin (- 1) else Fin 1)
                            (jsub (jadd (jmul (nth_num s 6) (nth_num s 6)) (jmul (nth_num s 7) (nth_num s 7))) (jmul r r)))
                      (Fin (1 / 2))
      else if j = 1 then jmul (jneg (if jle r (Fin 0) then Fin (- 1) else Fin 1)) (nth_num s 6)
      else if j = 2 then jmul (jneg (if jle r (Fin 0) then Fin (- 1) else Fin 1)) (nth_num s 7)
      else if j = 3 then jdiv (if jle r (Fin 0) then Fin (- 1) else Fin 1) (Fin 2)
      else if j = 4 then jmul (if jle r (Fin 0) then Fin (- 1) else Fin 1) r
      else nth_num s j)"
  by (simp add: normalize_small_def Let_def nth_num_aset)

lemma normalize_regimes:
  "normalize_jxg s =
     (let t = aset (aset (aset s 5 (derived_r s)) 6 (derived_q0 s)) 7 (derived_q1 s) in
      if line_regime (derived_r s) then normalize_line t
      else if large_regime (derived_r s) then normalize_large (derived_r s) t
      else normalize_small (derived_r s) t)"
  by (simp add: normalize_jxg_def Let_def nth_num_aset line_regime_def large_regime_def
      derived_r_def derived_q0_def derived_q1_def)

lemma nth_normalize:
  "nth_num (normalize_jxg s) j =
     (let r = derived_r s; q0 = derived_q0 s; q1 = derived_q1 s in
      if j = 5 then r else if j = 6 then q0 else if j = 7 then q1
      else if line_regime r then
        (if j = 0 then jdiv (nth_num s 0) (Math_sqrt (jadd (jmul (nth_num s 1) (nth_num s 1)) (jmul (nth_num s 2) (nth_num s 2))))
         else if j = 1 then jdiv (nth_num s 1) (Math_sqrt (jadd (jmul (nth_num s 1) (nth_num s 1)) (jmul (nth_num s 2) (nth_num s 2))))
         else if j = 2 then jdiv (nth_num s 2) (Math_sqrt (jadd (jmul (nth_num s 1) (nth_num s 1)) (jmul (nth_num s 2) (nth_num s 2))))
         else if j = 3 then Fin 0
         else if j = 4 then Fin 1
         else nth_num s j)
      else if large_regime r then
        (if j = 0 then jdiv (jsub (jadd (jmul q0 q0) (jmul q1 q1)) (jmul r r)) (jmul (Fin 2) r)
         else if j = 1 then jdiv (jneg q0) r
         else if j = 2 then jdiv (jneg q1) r
         else if j = 3 then jdiv (Fin 1) (jmul (Fin 2) r)
         else if j = 4 then Fin 1
         else nth_num s j)
      else
        (if j = 0 then jmul (jmul (if jle r (Fin 0) then Fin (- 1) else Fin 1)
                               (jsub (jadd (jmul q0 q0) (jmul q1 q1)) (jmul r r))) (Fin (1 / 2))
         else if j = 1 then jmul (jneg (if jle r (Fin 0) then Fin (- 1) else Fin 1)) q0
         else if j = 2 then jmul (jneg (if jle r (Fin 0) then Fin (- 1) else Fin 1)) q1
         else if j = 3 then jdiv (if jle r (Fin 0) then Fin (- 1) else Fin 1) (Fin 2)
         else if j = 4 then jmul (if jle r (Fin 0) then Fin (- 1) else Fin 1) r
         else nth_num s j))"
  by (simp add: normalize_regimes Let_def nth_normalize_line nth_normalize_large
      nth_normalize_small nth_num_aset)

lemma normalize_circle_cong:
  assumes "\<not> line_regime (derived_r s)"
    and "derived_r t = derived_r s" "derived_q0 t = derived_q0 s" "derived_q1 t = derived_q1 s"
    and "8 \<le> j \<Longrightarrow> nth_num t j = nth_num s j"
  shows "nth_num (normalize_jxg t) j = nth_num (normalize_jxg s) j"
  using assms by (simp add: nth_normalize Let_def)

text \<open>The values that a product or a quotient can take.\<close>

lemma jmul_cases:
  obtains "jmul a b = NaN" | "jmul a b = PInf" | "jmul a b = NInf" | "jmul a b = NZero"
    | "jmul a b = Fin 0" | y where "jmul a b = Fin y" "y \<noteq> 0" "is_double y"
proof (cases "isNaN a \<or> isNaN b \<or> is_inf a \<or> is_inf b \<or> is_zero a \<or> is_zero b")
  case True
  then have "jmul a b = NaN \<or> jmul a b = PInf \<or> jmul a b = NInf \<or> jmul a b = NZero \<or> jmul a b = Fin 0"
    by (auto simp: jmul_def inf_of_def zero_of_def)
  with that show ?thesis by blast
next
  case False
  then have "jmul a b = fl (rv a * rv b)" by (simp add: jmul_def)
  with that show ?thesis by (cases "rv a * rv b" rule: fl_cases) simp_all
qed

lemma jdiv_cases:
  obtains "jdiv a b = NaN" | "jdiv a b = PInf" | "jdiv a b = NInf" | "jdiv a b = NZero"
    | "jdiv a b = Fin 0" | y where "jdiv a b = Fin y" "y \<noteq> 0" "is_double y"
proof (cases "isNaN a \<or> isNaN b \<or> is_inf a \<or> is_inf b \<or> is_zero a \<or> is_zero b")
  case True
  then have "jdiv a b = NaN \<or> jdiv a b = PInf \<or> jdiv a b = NInf \<or> jdiv a b = NZero \<or> jdiv a b = Fin 0"
    by (auto simp: jdiv_def inf_of_def zero_of_def)
  with that show ?thesis by blast
next
  case False
  then have "jdiv a b = fl (rv a / rv b)" by (simp add: jdiv_def)
  with that show ?thesis by (cases "rv a / rv b" rule: fl_cases) simp_all
qed

lemma jdiv_Fin_double: "jdiv a b = Fin x \<Longrightarrow> is_double x"
  by (cases a b rule: jdiv_cases) auto

text \<open>
  In the small-radius regime the branch multiplies by \<open>signr\<close>, which is 1 or \<open>- 1\<close>, and sets
  \<open>a\<close> to \<open>signr / 2\<close>: none of this is rounded, and the second call recovers the radius and
  the centre exactly.
\<close>

lemma signr_half:
  assumes "sg = 1 \<or> sg = - 1"
  shows "jmul (Fin 2) (jdiv (Fin sg) (Fin 2)) = Fin sg"
  using assms by (auto simp: jdiv_Fin jmul_Fin fl_exact)

lemma undo_small_r:
  assumes r: "r = NZero \<or> r = Fin 0 \<or> (\<exists>y. r = Fin y \<and> y \<noteq> 0 \<and> is_double y)"
    and sg: "sg = 1 \<or> sg = - 1"
  shows "jdiv (jmul (Fin sg) r) (jmul (Fin 2) (jdiv (Fin sg) (Fin 2))) = r"
proof -
  have "jdiv (jmul (Fin sg) r) (Fin sg) = r"
    using r
  proof (elim disjE exE conjE)
    assume "r = NZero"
    then show ?thesis using sg
      by (auto simp: jmul_def jdiv_def isNaN_def is_zero_def is_inf_def zero_of_def)
  next
    assume "r = Fin 0"
    then show ?thesis using sg
      by (auto simp: jmul_def jdiv_def isNaN_def is_zero_def is_inf_def zero_of_def)
  next
    fix y assume y: "r = Fin y" "y \<noteq> 0" "is_double y"
    have m: "is_double (- y)" using y(3) by (rule is_double_minus)
    show ?thesis using sg y m by (auto simp: jmul_Fin jdiv_Fin fl_exact)
  qed
  then show ?thesis by (simp only: signr_half [OF sg])
qed

lemma undo_small_q:
  assumes q: "q = NaN \<or> q = PInf \<or> q = NInf \<or> q = NZero \<or> q = Fin 0
      \<or> (\<exists>y. q = Fin y \<and> y \<noteq> 0 \<and> is_double y)"
    and sg: "sg = 1 \<or> sg = - 1"
  shows "jdiv (jneg (jmul (jneg (Fin sg)) q)) (jmul (Fin 2) (jdiv (Fin sg) (Fin 2))) = q"
proof -
  have "jdiv (jneg (jmul (jneg (Fin sg)) q)) (Fin sg) = q"
    using q
  proof (elim disjE exE conjE)
    fix y assume y: "q = Fin y" "y \<noteq> 0" "is_double y"
    have m: "is_double (- y)" using y(3) by (rule is_double_minus)
    show ?thesis using sg y m by (auto simp: jmul_Fin jdiv_Fin fl_exact)
  qed (use sg in \<open>auto simp: jmul_def jdiv_def isNaN_def is_zero_def is_inf_def zero_of_def inf_of_def\<close>)
  then show ?thesis by (simp only: signr_half [OF sg])
qed

lemma jdiv_forms:
  "jdiv a b = NaN \<or> jdiv a b = PInf \<or> jdiv a b = NInf \<or> jdiv a b = NZero \<or> jdiv a b = Fin 0
   \<or> (\<exists>y. jdiv a b = Fin y \<and> y \<noteq> 0 \<and> is_double y)"
  by (cases a b rule: jdiv_cases) auto

lemma small_regime_forms:
  assumes "small_regime (jdiv a b)"
  shows "jdiv a b = NZero \<or> jdiv a b = Fin 0 \<or> (\<exists>y. jdiv a b = Fin y \<and> y \<noteq> 0 \<and> is_double y)"
  using assms jdiv_forms [of a b]
  by (auto simp: small_regime_def line_regime_def isNaN_def jge_def jle_def)

lemma large_regime_Fin: "large_regime (Fin x) \<longleftrightarrow> 1 \<le> \<bar>x\<bar>"
  by (auto simp: large_regime_def line_regime_def isNaN_def jge_def jle_def)

text \<open>
  The circle with \<open>a = 3\<close> and \<open>k = 11\<close>: the radius \<open>11 / 6\<close> is rounded to
  \<open>1.8333333333333333\<close>; the large-radius branch stores \<open>a = 1 / (2 r)\<close>, rounded to
  \<open>0.27272727272727276\<close>, and \<open>k = 1\<close>, from which the second call computes the radius
  \<open>1.833333333333333\<close>, one unit in the last place below the first.
\<close>

lemma circle_r: "jdiv (Fin 11) (Fin 6) = Fin (8256599316845909 / 4503599627370496)"
proof -
  have "fl (11 / 6) = Fin (8256599316845909 / 4503599627370496)"
    by (rule fl_eval [where E = 0 and r = 8256599316845909]) simp_all
  then show ?thesis by (simp add: jdiv_Fin)
qed

lemma circle_2r: "jmul (Fin 2) (Fin (8256599316845909 / 4503599627370496)) = Fin (8256599316845909 / 2251799813685248)"
proof -
  have "fl (2 * (8256599316845909 / 4503599627370496)) = Fin (8256599316845909 / 2251799813685248)"
    by (rule fl_eval [where E = 1 and r = 8256599316845909]) simp_all
  then show ?thesis by (simp add: jmul_Fin)
qed

lemma circle_a: "jdiv (Fin 1) (Fin (8256599316845909 / 2251799813685248)) = Fin (4913017775313269 / 18014398509481984)"
proof -
  have "fl (1 / (8256599316845909 / 2251799813685248)) = Fin (4913017775313269 / 18014398509481984)"
    by (rule fl_eval [where E = "- 2" and r = 4913017775313269]) simp_all
  then show ?thesis by (simp add: jdiv_Fin)
qed

lemma circle_2a: "jmul (Fin 2) (Fin (4913017775313269 / 18014398509481984)) = Fin (4913017775313269 / 9007199254740992)"
proof -
  have "fl (2 * (4913017775313269 / 18014398509481984)) = Fin (4913017775313269 / 9007199254740992)"
    by (rule fl_eval [where E = "- 1" and r = 4913017775313269]) simp_all
  then show ?thesis by (simp add: jmul_Fin)
qed

lemma circle_r_again: "jdiv (Fin 1) (Fin (4913017775313269 / 9007199254740992)) = Fin (2064149829211477 / 1125899906842624)"
proof -
  have "fl (1 / (4913017775313269 / 9007199254740992)) = Fin (2064149829211477 / 1125899906842624)"
    by (rule fl_eval [where E = 0 and r = 8256599316845908]) simp_all
  then show ?thesis by (simp add: jdiv_Fin)
qed

lemma circle_twice:
  "nth_num (normalize_jxg [Fin 0, Fin 0, Fin 0, Fin 3, Fin 11, Fin 0, Fin 0, Fin 0]) 5 = Fin (8256599316845909 / 4503599627370496)
   \<and> nth_num (normalize_jxg (normalize_jxg [Fin 0, Fin 0, Fin 0, Fin 3, Fin 11, Fin 0, Fin 0, Fin 0])) 5 = Fin (2064149829211477 / 1125899906842624)"
proof -
  let ?s = "[Fin 0, Fin 0, Fin 0, Fin 3, Fin 11, Fin 0, Fin 0, Fin 0]"
  have r: "derived_r ?s = Fin (8256599316845909 / 4503599627370496)"
    using circle_r by (simp add: derived_r_def nth_num_def jmul_Fin)
  have nl: "\<not> line_regime (derived_r ?s)" by (simp add: r line_regime_def isNaN_def)
  have lg: "large_regime (derived_r ?s)" by (simp add: r large_regime_Fin)
  have t3: "nth_num (normalize_jxg ?s) 3 = jdiv (Fin 1) (jmul (Fin 2) (derived_r ?s))"
    and t4: "nth_num (normalize_jxg ?s) 4 = Fin 1"
    and t5: "nth_num (normalize_jxg ?s) 5 = derived_r ?s"
    using nl lg by (simp_all add: nth_normalize Let_def)
  have "nth_num (normalize_jxg (normalize_jxg ?s)) 5 = derived_r (normalize_jxg ?s)"
    by (simp add: nth_normalize Let_def)
  also have "\<dots> = jdiv (Fin 1) (jmul (Fin 2) (jdiv (Fin 1) (jmul (Fin 2) (Fin (8256599316845909 / 4503599627370496)))))"
    by (simp only: derived_r_def [of "normalize_jxg ?s"] t3 t4 r)
  also have "\<dots> = Fin (2064149829211477 / 1125899906842624)"
    by (simp only: circle_2r circle_a circle_2a circle_r_again)
  finally show ?thesis by (simp only: t5 r simp_thms)
qed

text \<open>
  The circle with \<open>(b0, b1) = (- 3, - 3)\<close>, \<open>a = 1\<close> and \<open>k = 5\<close>: the centre is \<open>(1.5, 1.5)\<close> and
  the radius \<open>2.5\<close>; the branch stores \<open>b0 = - 1.5 / 2.5\<close>, rounded to \<open>- 0.6\<close>, and
  \<open>a = 1 / 5\<close>, rounded to \<open>0.2\<close>, from which the second call computes the centre
  \<open>0.6 / 0.4 = 1.4999999999999998\<close> (the decimals standing for the numbers nearest to them).
\<close>

lemma circle5_b: "jdiv (Fin (- (3 / 2))) (Fin (5 / 2)) = Fin (- (5404319552844595 / 9007199254740992))"
proof -
  have "fl ((- (3 / 2)) / (5 / 2)) = Fin (- (5404319552844595 / 9007199254740992))"
    by (rule fl_eval [where E = "- 1" and r = "- 5404319552844595"]) simp_all
  then show ?thesis by (simp add: jdiv_Fin)
qed

lemma circle5_a: "jdiv (Fin 1) (Fin 5) = Fin (3602879701896397 / 18014398509481984)"
proof -
  have "fl (1 / 5) = Fin (3602879701896397 / 18014398509481984)"
    by (rule fl_eval [where E = "- 3" and r = 7205759403792794]) simp_all
  then show ?thesis by (simp add: jdiv_Fin)
qed

lemma circle5_2a: "jmul (Fin 2) (Fin (3602879701896397 / 18014398509481984)) = Fin (3602879701896397 / 9007199254740992)"
proof -
  have "fl (2 * (3602879701896397 / 18014398509481984)) = Fin (3602879701896397 / 9007199254740992)"
    by (rule fl_eval [where E = "- 2" and r = 7205759403792794]) simp_all
  then show ?thesis by (simp add: jmul_Fin)
qed

lemma circle5_q_again: "jdiv (Fin (5404319552844595 / 9007199254740992)) (Fin (3602879701896397 / 9007199254740992)) = Fin (6755399441055743 / 4503599627370496)"
proof -
  have "fl ((5404319552844595 / 9007199254740992) / (3602879701896397 / 9007199254740992)) = Fin (6755399441055743 / 4503599627370496)"
    by (rule fl_eval [where E = 0 and r = 6755399441055743]) simp_all
  then show ?thesis by (simp add: jdiv_Fin)
qed

lemma circle5_twice:
  "nth_num (normalize_jxg [Fin (- 3), Fin (- 3), Fin (- 3), Fin 1, Fin 5, Fin 0, Fin 0, Fin 0]) 6 = Fin (3 / 2)
   \<and> nth_num (normalize_jxg (normalize_jxg [Fin (- 3), Fin (- 3), Fin (- 3), Fin 1, Fin 5, Fin 0, Fin 0, Fin 0])) 6 = Fin (6755399441055743 / 4503599627370496)"
proof -
  let ?s = "[Fin (- 3), Fin (- 3), Fin (- 3), Fin 1, Fin 5, Fin 0, Fin 0, Fin 0]"
  let ?t = "normalize_jxg ?s"
  have h: "is_double (3 / 2)" "is_double (5 / 2)"
    by (rule is_doubleI [of _ 3 "- 1"], simp_all add: power_int_minus)
      (rule is_doubleI [of _ 5 "- 1"], simp_all add: power_int_minus)
  have r: "derived_r ?s = Fin (5 / 2)"
    by (simp add: derived_r_def nth_num_def jmul_Fin jdiv_Fin fl_exact h)
  have q: "derived_q0 ?s = Fin (3 / 2)"
    by (simp add: derived_q0_def nth_num_def jmul_Fin jdiv_Fin fl_exact h)
  have nl: "\<not> line_regime (derived_r ?s)" by (simp add: r line_regime_def isNaN_def)
  have lg: "large_regime (derived_r ?s)" by (simp add: r large_regime_Fin)
  have t1: "nth_num ?t 1 = jdiv (jneg (derived_q0 ?s)) (derived_r ?s)"
    and t3: "nth_num ?t 3 = jdiv (Fin 1) (jmul (Fin 2) (derived_r ?s))"
    and t6: "nth_num ?t 6 = derived_q0 ?s"
    using nl lg by (simp_all add: nth_normalize Let_def del: One_nat_def)
  have n: "jneg (Fin (3 / 2)) = Fin (- (3 / 2))" by simp
  have b: "nth_num ?t 1 = Fin (- (5404319552844595 / 9007199254740992))"
    by (simp only: t1 q r n circle5_b)
  have a: "nth_num ?t 3 = Fin (3602879701896397 / 18014398509481984)"
    using circle5_a by (simp add: t3 r jmul_Fin)
  have "nth_num (normalize_jxg ?t) 6 = derived_q0 ?t"
    by (simp add: nth_normalize Let_def)
  also have "\<dots> = jdiv (jneg (Fin (- (5404319552844595 / 9007199254740992)))) (jmul (Fin 2) (Fin (3602879701896397 / 18014398509481984)))"
    by (simp only: derived_q0_def [of ?t] a b)
  also have "\<dots> = Fin (6755399441055743 / 4503599627370496)"
    using circle5_q_again by (simp add: circle5_2a)
  finally show ?thesis by (simp only: t6 q simp_thms)
qed

text \<open>
  The line with \<open>(b0, b1) = (1, 1)\<close> and \<open>k = 1\<close>: the norm \<open>sqrt 2\<close> and the quotient \<open>1 / sqrt 2\<close>
  are rounded, to \<open>b0 = b1 = 0.7071067811865475\<close>; their squares add up to
  \<open>0.9999999999999998\<close>, whose square root is rounded to \<open>0.9999999999999999\<close>, and the second call
  divides by it: \<open>b0\<close> and \<open>b1\<close> become \<open>0.7071067811865476\<close>.
\<close>

lemma line_norm: "Math_sqrt (Fin 2) = Fin (6369051672525773 / 4503599627370496)"
proof -
  have "fl (sqrt 2) = Fin (6369051672525773 / 4503599627370496)"
    by (rule fl_sqrt_eval [where E = 0 and r = 6369051672525773]) simp_all
  then show ?thesis by simp
qed

lemma line_b: "jdiv (Fin 1) (Fin (6369051672525773 / 4503599627370496)) = Fin (1592262918131443 / 2251799813685248)"
proof -
  have "fl (1 / (6369051672525773 / 4503599627370496)) = Fin (1592262918131443 / 2251799813685248)"
    by (rule fl_eval [where E = "- 1" and r = 6369051672525772]) simp_all
  then show ?thesis by (simp add: jdiv_Fin)
qed

lemma line_b_squared: "jmul (Fin (1592262918131443 / 2251799813685248)) (Fin (1592262918131443 / 2251799813685248)) = Fin (4503599627370495 / 9007199254740992)"
proof -
  have "fl ((1592262918131443 / 2251799813685248) * (1592262918131443 / 2251799813685248)) = Fin (4503599627370495 / 9007199254740992)"
    by (rule fl_eval [where E = "- 2" and r = 9007199254740990]) simp_all
  then show ?thesis by (simp add: jmul_Fin)
qed

lemma line_sum: "jadd (Fin (4503599627370495 / 9007199254740992)) (Fin (4503599627370495 / 9007199254740992)) = Fin (4503599627370495 / 4503599627370496)"
proof -
  have "fl ((4503599627370495 / 9007199254740992) + (4503599627370495 / 9007199254740992)) = Fin (4503599627370495 / 4503599627370496)"
    by (rule fl_eval [where E = "- 1" and r = 9007199254740990]) simp_all
  then show ?thesis by (simp)
qed

lemma line_norm_again: "Math_sqrt (Fin (4503599627370495 / 4503599627370496)) = Fin (9007199254740991 / 9007199254740992)"
proof -
  have "fl (sqrt (4503599627370495 / 4503599627370496)) = Fin (9007199254740991 / 9007199254740992)"
    by (rule fl_sqrt_eval [where E = "- 1" and r = 9007199254740991]) simp_all
  then show ?thesis by simp
qed

lemma line_b_again: "jdiv (Fin (1592262918131443 / 2251799813685248)) (Fin (9007199254740991 / 9007199254740992)) = Fin (6369051672525773 / 9007199254740992)"
proof -
  have "fl ((1592262918131443 / 2251799813685248) / (9007199254740991 / 9007199254740992)) = Fin (6369051672525773 / 9007199254740992)"
    by (rule fl_eval [where E = "- 1" and r = 6369051672525773]) simp_all
  then show ?thesis by (simp add: jdiv_Fin)
qed

lemma line_twice:
  "nth_num (normalize_jxg [Fin 0, Fin 1, Fin 1, Fin 0, Fin 1, Fin 0, Fin 0, Fin 0]) 1 = Fin (1592262918131443 / 2251799813685248)
   \<and> nth_num (normalize_jxg (normalize_jxg [Fin 0, Fin 1, Fin 1, Fin 0, Fin 1, Fin 0, Fin 0, Fin 0])) 1 = Fin (6369051672525773 / 9007199254740992)"
proof -
  let ?s = "[Fin 0, Fin 1, Fin 1, Fin 0, Fin 1, Fin 0, Fin 0, Fin 0]"
  let ?t = "normalize_jxg ?s"
  have r: "derived_r ?s = PInf"
    by (simp add: derived_r_def nth_num_def jmul_Fin jdiv_Fin zero_of_def inf_of_def)
  have line: "line_regime (derived_r ?s)" by (simp add: r line_regime_def)
  have n: "Math_sqrt (jadd (jmul (nth_num ?s 1) (nth_num ?s 1)) (jmul (nth_num ?s 2) (nth_num ?s 2)))
      = Fin (6369051672525773 / 4503599627370496)"
    using line_norm by (simp add: nth_num_def jmul_Fin del: Math_sqrt.simps)
  have t1: "nth_num ?t 1 = Fin (1592262918131443 / 2251799813685248)" and t2: "nth_num ?t 2 = Fin (1592262918131443 / 2251799813685248)"
    and t3: "nth_num ?t 3 = Fin 0" and t4: "nth_num ?t 4 = Fin 1"
    using line line_b by (simp_all add: nth_normalize Let_def n del: One_nat_def) (simp_all add: nth_num_def)
  have r': "derived_r ?t = PInf"
    by (simp add: derived_r_def t3 t4 jmul_Fin jdiv_Fin zero_of_def inf_of_def)
  have line': "line_regime (derived_r ?t)" by (simp add: r' line_regime_def)
  have "nth_num (normalize_jxg ?t) 1 =
      jdiv (nth_num ?t 1) (Math_sqrt (jadd (jmul (nth_num ?t 1) (nth_num ?t 1)) (jmul (nth_num ?t 2) (nth_num ?t 2))))"
    using line' by (simp add: nth_normalize [of ?t] Let_def del: One_nat_def)
  also have "\<dots> = Fin (6369051672525773 / 9007199254740992)"
    by (simp only: t1 t2 line_b_squared line_sum line_norm_again line_b_again)
  finally show ?thesis by (simp only: t1 simp_thms)
qed

text \<open>
  C2, as stated, fails in two of the three regimes, on valid stdforms. On the line with
  \<open>k = 0\<close> the first call stores \<open>r = 0 / 0\<close>, which is NaN, in slot 5 and sets \<open>k\<close> to 1, and
  the second call stores \<open>r = 1 / 0 = Infinity\<close>. On the line with \<open>(b0, b1) = (1, 1)\<close> and
  \<open>k = 1\<close> the second call changes slot 1 by one unit in the last place. And in the large-radius
  regime, on the circle with \<open>a = 3\<close> and \<open>k = 11\<close> it changes slot 5, on the circle with
  \<open>(b0, b1) = (- 3, - 3)\<close>, \<open>a = 1\<close> and \<open>k = 5\<close> slot 6, from \<open>1.5\<close> to \<open>1.4999999999999998\<close>.
\<close>

theorem normalize_not_idempotent:
  "valid_stdform [Fin 0, Fin 1, Fin 0, Fin 0, Fin 0, Fin 0, Fin 0, Fin 0]
   \<and> normalize_jxg [Fin 0, Fin 1, Fin 0, Fin 0, Fin 0, Fin 0, Fin 0, Fin 0]
       = [Fin 0, Fin 1, Fin 0, Fin 0, Fin 1, NaN, NInf, NaN]
   \<and> normalize_jxg [Fin 0, Fin 1, Fin 0, Fin 0, Fin 1, NaN, NInf, NaN]
       = [Fin 0, Fin 1, Fin 0, Fin 0, Fin 1, PInf, NInf, NaN]
   \<and> valid_stdform [Fin 0, Fin 1, Fin 1, Fin 0, Fin 1, Fin 0, Fin 0, Fin 0]
   \<and> nth_num (normalize_jxg [Fin 0, Fin 1, Fin 1, Fin 0, Fin 1, Fin 0, Fin 0, Fin 0]) 1 = Fin (1592262918131443 / 2251799813685248)
   \<and> nth_num (normalize_jxg (normalize_jxg [Fin 0, Fin 1, Fin 1, Fin 0, Fin 1, Fin 0, Fin 0, Fin 0])) 1 = Fin (6369051672525773 / 9007199254740992)
   \<and> valid_stdform [Fin 0, Fin 0, Fin 0, Fin 3, Fin 11, Fin 0, Fin 0, Fin 0]
   \<and> nth_num (normalize_jxg [Fin 0, Fin 0, Fin 0, Fin 3, Fin 11, Fin 0, Fin 0, Fin 0]) 5 = Fin (8256599316845909 / 4503599627370496)
   \<and> nth_num (normalize_jxg (normalize_jxg [Fin 0, Fin 0, Fin 0, Fin 3, Fin 11, Fin 0, Fin 0, Fin 0])) 5 = Fin (2064149829211477 / 1125899906842624)
   \<and> valid_stdform [Fin (- 3), Fin (- 3), Fin (- 3), Fin 1, Fin 5, Fin 0, Fin 0, Fin 0]
   \<and> nth_num (normalize_jxg [Fin (- 3), Fin (- 3), Fin (- 3), Fin 1, Fin 5, Fin 0, Fin 0, Fin 0]) 6 = Fin (3 / 2)
   \<and> nth_num (normalize_jxg (normalize_jxg [Fin (- 3), Fin (- 3), Fin (- 3), Fin 1, Fin 5, Fin 0, Fin 0, Fin 0])) 6 = Fin (6755399441055743 / 4503599627370496)"
proof -
  have "valid_stdform [Fin 0, Fin 1, Fin 0, Fin 0, Fin 0, Fin 0, Fin 0, Fin 0]"
    "valid_stdform [Fin 0, Fin 1, Fin 1, Fin 0, Fin 1, Fin 0, Fin 0, Fin 0]"
    "valid_stdform [Fin 0, Fin 0, Fin 0, Fin 3, Fin 11, Fin 0, Fin 0, Fin 0]"
    "valid_stdform [Fin (- 3), Fin (- 3), Fin (- 3), Fin 1, Fin 5, Fin 0, Fin 0, Fin 0]"
    by (simp_all add: valid_stdform_def is_finite_def isNaN_def is_inf_def is_zero_def nth_num_def)
  moreover have "normalize_jxg [Fin 0, Fin 1, Fin 0, Fin 0, Fin 0, Fin 0, Fin 0, Fin 0]
      = [Fin 0, Fin 1, Fin 0, Fin 0, Fin 1, NaN, NInf, NaN]"
    by (simp add: norm_defs jmul_Fin jdiv_Fin jge_def jle_def
        isNaN_def zero_of_def inf_of_def jmul_def jdiv_def is_inf_def is_zero_def jsub_def)
  moreover have "normalize_jxg [Fin 0, Fin 1, Fin 0, Fin 0, Fin 1, NaN, NInf, NaN]
      = [Fin 0, Fin 1, Fin 0, Fin 0, Fin 1, PInf, NInf, NaN]"
    by (simp add: norm_defs jmul_Fin jdiv_Fin jge_def jle_def
        isNaN_def zero_of_def inf_of_def jmul_def jdiv_def is_inf_def is_zero_def jsub_def)
  ultimately show ?thesis using line_twice circle_twice circle5_twice by (simp only: simp_thms)
qed

text \<open>
  C2, amended. For every stdform whose radius \<open>r = k / (2 a)\<close>, as the code computes it, selects
  the small-radius regime (\<open>r\<close> is a number with \<open>\<bar>r\<bar> < 1\<close>), \<open>normalize\<close> applied to its own result
  changes none of the eight slots.
\<close>

theorem normalize_idempotent:
  assumes sm: "small_regime (derived_r s)"
  shows "normalize_jxg (normalize_jxg s) = normalize_jxg s"
proof (rule list_eq_nth_num)
  let ?t = "normalize_jxg s"
  define sg :: real where "sg = (if jle (derived_r s) (Fin 0) then - 1 else 1)"
  have sg: "sg = 1 \<or> sg = - 1" by (simp add: sg_def)
  have signr: "(if jle (derived_r s) (Fin 0) then Fin (- 1) else Fin 1) = Fin sg"
    by (simp add: sg_def)
  have nl: "\<not> line_regime (derived_r s)" using sm by (simp add: small_regime_def)
  have nlg: "\<not> large_regime (derived_r s)" using sm by (simp add: small_regime_def large_regime_def)
  have t3: "nth_num ?t 3 = jdiv (Fin sg) (Fin 2)"
    and t4: "nth_num ?t 4 = jmul (Fin sg) (derived_r s)"
    and t1: "nth_num ?t 1 = jmul (jneg (Fin sg)) (derived_q0 s)"
    and t2: "nth_num ?t 2 = jmul (jneg (Fin sg)) (derived_q1 s)"
    using nl nlg by (simp_all add: nth_normalize Let_def signr del: jneg.simps)
  have dr: "derived_r ?t = derived_r s"
    unfolding derived_r_def [of ?t] t3 t4
    using small_regime_forms [OF sm [unfolded derived_r_def]] sg
    unfolding derived_r_def [symmetric] by (rule undo_small_r)
  have dq0: "derived_q0 ?t = derived_q0 s"
    unfolding derived_q0_def [of ?t] t1 t3
    using jdiv_forms [of "jneg (nth_num s 1)" "jmul (Fin 2) (nth_num s 3)"] sg
    unfolding derived_q0_def [symmetric] by (rule undo_small_q)
  have dq1: "derived_q1 ?t = derived_q1 s"
    unfolding derived_q1_def [of ?t] t2 t3
    using jdiv_forms [of "jneg (nth_num s 2)" "jmul (Fin 2) (nth_num s 3)"] sg
    unfolding derived_q1_def [symmetric] by (rule undo_small_q)
  show "length (normalize_jxg ?t) = length ?t" by (simp add: length_normalize)
  fix j
  show "nth_num (normalize_jxg ?t) j = nth_num ?t j"
  proof (rule normalize_circle_cong [OF nl dr dq0 dq1])
    assume "8 \<le> j"
    then show "nth_num ?t j = nth_num s j" by (simp add: nth_normalize Let_def)
  qed
qed

theorem normalize_idempotent_witness:
  "small_regime (derived_r [Fin 1, Fin (- 2), Fin (- 4), Fin 1, Fin 1, Fin 0, Fin 0, Fin 0])
   \<and> normalize_jxg (normalize_jxg [Fin 1, Fin (- 2), Fin (- 4), Fin 1, Fin 1, Fin 0, Fin 0, Fin 0])
       = normalize_jxg [Fin 1, Fin (- 2), Fin (- 4), Fin 1, Fin 1, Fin 0, Fin 0, Fin 0]"
proof -
  have "derived_r [Fin 1, Fin (- 2), Fin (- 4), Fin 1, Fin 1, Fin 0, Fin 0, Fin 0] = Fin (1 / 2)"
    by (simp add: derived_r_def nth_num_def jmul_Fin jdiv_Fin fl_exact)
  then have s: "small_regime (derived_r [Fin 1, Fin (- 2), Fin (- 4), Fin 1, Fin 1, Fin 0, Fin 0, Fin 0])"
    by (simp add: small_regime_def line_regime_def isNaN_def jge_def jle_def)
  from normalize_idempotent [OF s] s show ?thesis by simp
qed

text \<open>
  In the large-radius regime the new slot 3 is the rounded quotient of 1 by the rounded
  product \<open>2 r\<close>. The product is at least 2 in absolute value, or an infinity when it
  overflows, so the quotient is a finite number of absolute value at most \<open>1 / 2\<close>.
\<close>

lemma rounded_double_bounds:
  assumes "1 \<le> \<bar>x\<bar>"
  shows "2 \<le> \<bar>rounded (2 * x)\<bar>" "rounded (2 * x) < 0 \<longleftrightarrow> x < 0"
proof -
  consider "1 \<le> x" | "x \<le> - 1" using assms by linarith
  then have "(2 \<le> rounded (2 * x) \<and> 0 < x) \<or> (rounded (2 * x) \<le> - 2 \<and> x < 0)"
  proof cases
    case 1
    then have "2 \<le> rounded (2 * x)" by (intro rounded_ge) auto
    with 1 show ?thesis by simp
  next
    case 2
    then have "rounded (2 * x) \<le> - 2" by (intro rounded_le) auto
    with 2 show ?thesis by simp
  qed
  then show "2 \<le> \<bar>rounded (2 * x)\<bar>" "rounded (2 * x) < 0 \<longleftrightarrow> x < 0" by auto
qed

lemma fl_small:
  assumes "\<bar>z\<bar> \<le> 1 / 2"
  shows "is_finite (fl z) \<and> \<bar>rv (fl z)\<bar> \<le> 1 / 2"
proof -
  have "rounded z \<le> 1 / 2" using assms by (intro rounded_le) auto
  moreover have "- (1 / 2) \<le> rounded z" using assms by (intro rounded_ge) auto
  ultimately have b: "\<bar>rounded z\<bar> \<le> 1 / 2" by simp
  also have "(1 / 2 :: real) < 2 ^ 1024" by simp
  finally have "\<not> 2 ^ 1024 \<le> \<bar>rounded z\<bar>" by simp
  then show ?thesis using b
    by (auto simp: fl_def zero_of_def is_finite_def isNaN_def is_inf_def)
qed

lemma large_slot3:
  assumes "1 \<le> \<bar>x\<bar>"
  shows "is_finite (jdiv (Fin 1) (jmul (Fin 2) (Fin x)))
       \<and> \<bar>rv (jdiv (Fin 1) (jmul (Fin 2) (Fin x)))\<bar> \<le> 1 / 2"
proof -
  have x0: "x \<noteq> 0" using assms by auto
  note w = rounded_double_bounds [OF assms]
  show ?thesis
  proof (cases "2 ^ 1024 \<le> \<bar>rounded (2 * x)\<bar>")
    case True
    then have "jmul (Fin 2) (Fin x) = inf_of (x < 0)" using x0 by (simp add: jmul_Fin fl_def)
    then show ?thesis
      by (simp add: jdiv_def inf_of_def zero_of_def isNaN_def is_zero_def is_inf_def is_finite_def)
  next
    case False
    have w0: "rounded (2 * x) \<noteq> 0" using w(1) by auto
    have m: "jmul (Fin 2) (Fin x) = Fin (rounded (2 * x))"
      using x0 False w0 by (simp add: jmul_Fin fl_def)
    have "\<bar>1 / rounded (2 * x)\<bar> \<le> 1 / 2"
      using w(1) by (simp add: abs_divide field_simps)
    then have "is_finite (fl (1 / rounded (2 * x))) \<and> \<bar>rv (fl (1 / rounded (2 * x)))\<bar> \<le> 1 / 2"
      by (rule fl_small)
    moreover have "jdiv (Fin 1) (Fin (rounded (2 * x))) = fl (1 / rounded (2 * x))"
      using w0 by (simp add: jdiv_Fin)
    ultimately show ?thesis unfolding m by (simp only:)
  qed
qed

text \<open>
  C1, as stated, fails: for the circle with \<open>a = 1\<close> and \<open>k = 4\<close>, so \<open>r = 2\<close>, the resulting
  slot 3 is \<open>1 / 4\<close>, not 1.
\<close>

theorem normalize_large_radius_a_not_one:
  "derived_r [Fin 1, Fin (- 2), Fin (- 4), Fin 1, Fin 4, Fin 0, Fin 0, Fin 0] = Fin 2
   \<and> normalize_jxg [Fin 1, Fin (- 2), Fin (- 4), Fin 1, Fin 4, Fin 0, Fin 0, Fin 0]
       = [Fin (1 / 4), Fin (- (1 / 2)), Fin (- 1), Fin (1 / 4), Fin 1, Fin 2, Fin 1, Fin 2]"
proof -
  have q: "is_double (1 / 4)"
    by (rule is_doubleI [of _ 1 "- 2"]) (simp_all add: power_int_minus)
  show ?thesis
    by (simp add: derived_r_def norm_defs jmul_Fin jdiv_Fin jsub_Fin jge_def jle_def isNaN_def
        fl_exact q)
qed

text \<open>
  C1, amended. For every stdform with a finite \<open>r = k / (2 a)\<close> and \<open>\<bar>r\<bar> \<ge> 1\<close>, \<open>normalize\<close>
  rebuilds slots 0 to 3 from the centre \<open>(q0, q1)\<close> and the radius \<open>r\<close> computed before the
  branch; the resulting slot 3 is the quotient \<open>1 / (2 r)\<close> as the code computes it, a finite
  number of absolute value at most \<open>1 / 2\<close> and so never 1; and it is slot 4, the coefficient \<open>k\<close>,
  that becomes 1.
\<close>

theorem normalize_large_radius:
  assumes "derived_r s = Fin x" "1 \<le> \<bar>x\<bar>"
  shows "nth_num (normalize_jxg s) 0 =
           jdiv (jsub (jadd (jmul (derived_q0 s) (derived_q0 s)) (jmul (derived_q1 s) (derived_q1 s)))
                      (jmul (Fin x) (Fin x))) (jmul (Fin 2) (Fin x))
       \<and> nth_num (normalize_jxg s) 1 = jdiv (jneg (derived_q0 s)) (Fin x)
       \<and> nth_num (normalize_jxg s) 2 = jdiv (jneg (derived_q1 s)) (Fin x)
       \<and> nth_num (normalize_jxg s) 3 = jdiv (Fin 1) (jmul (Fin 2) (Fin x))
       \<and> is_finite (nth_num (normalize_jxg s) 3)
       \<and> \<bar>rv (nth_num (normalize_jxg s) 3)\<bar> \<le> 1 / 2
       \<and> nth_num (normalize_jxg s) 3 \<noteq> Fin 1
       \<and> nth_num (normalize_jxg s) 4 = Fin 1
       \<and> nth_num (normalize_jxg s) 5 = Fin x
       \<and> nth_num (normalize_jxg s) 6 = derived_q0 s
       \<and> nth_num (normalize_jxg s) 7 = derived_q1 s"
proof -
  have nl: "\<not> line_regime (derived_r s)" by (simp add: assms(1) line_regime_def isNaN_def)
  have lg: "large_regime (derived_r s)" using assms(2) by (simp add: assms(1) large_regime_Fin)
  have s3: "nth_num (normalize_jxg s) 3 = jdiv (Fin 1) (jmul (Fin 2) (Fin x))"
    using nl lg by (simp add: nth_normalize Let_def assms(1))
  note b = large_slot3 [OF assms(2)]
  have "jdiv (Fin 1) (jmul (Fin 2) (Fin x)) \<noteq> Fin 1"
  proof
    assume "jdiv (Fin 1) (jmul (Fin 2) (Fin x)) = Fin 1"
    with b show False by simp
  qed
  then show ?thesis
    using nl lg b by (simp add: nth_normalize Let_def assms(1))
qed

theorem normalize_large_radius_witness:
  "derived_r [Fin 1, Fin (- 2), Fin (- 4), Fin 1, Fin 4, Fin 0, Fin 0, Fin 0] = Fin 2
   \<and> 1 \<le> \<bar>2 :: real\<bar>
   \<and> nth_num (normalize_jxg [Fin 1, Fin (- 2), Fin (- 4), Fin 1, Fin 4, Fin 0, Fin 0, Fin 0]) 3 = Fin (1 / 4)
   \<and> nth_num (normalize_jxg [Fin 1, Fin (- 2), Fin (- 4), Fin 1, Fin 4, Fin 0, Fin 0, Fin 0]) 4 = Fin 1"
proof -
  have r: "derived_r [Fin 1, Fin (- 2), Fin (- 4), Fin 1, Fin 4, Fin 0, Fin 0, Fin 0] = Fin 2"
    by (simp add: derived_r_def nth_num_def jmul_Fin jdiv_Fin)
  have x: "1 \<le> \<bar>2 :: real\<bar>" by simp
  have q: "is_double (1 / 4)"
    by (rule is_doubleI [of _ 1 "- 2"]) (simp_all add: power_int_minus)
  from normalize_large_radius [OF r x] r show ?thesis
    by (simp add: jmul_Fin jdiv_Fin fl_exact q)
qed

text \<open>
  When \<open>2 r\<close> overflows, slot 3 is a zero: for \<open>a = 0.5\<close> and \<open>k\<close> the number nearest to \<open>10^308\<close>
  the result has slot 3 equal to 0 and slot 0, the quotient of two infinities, equal to NaN.
\<close>

lemma normalize_overflow_example:
  "fl (10 ^ 308) = Fin (5010420900022432 * 2 ^ 971)
   \<and> normalize_jxg [Fin 0, Fin 0, Fin 0, Fin (1 / 2), Fin (5010420900022432 * 2 ^ 971), Fin 0, Fin 0, Fin 0]
       = [NaN, Fin 0, Fin 0, Fin 0, Fin 1, Fin (5010420900022432 * 2 ^ 971), NZero, NZero]"
proof -
  define X :: real where "X = 5010420900022432 * 2 ^ 971"
  have n: "fl (10 ^ 308) = Fin X"
    unfolding X_def by (rule fl_eval [where E = 1023 and r = 5010420900022432]) simp_all
  have X: "1 < X" "X \<noteq> 0" "\<not> X < 0" by (simp_all add: X_def)
  have d: "is_double X" unfolding X_def by (rule is_doubleI [of _ 5010420900022432 971]) simp_all
  have o2: "fl (2 * X) = PInf"
    using fl_overflow [of "2 * X"] by (simp add: X_def inf_of_def)
  have oq: "fl (X * X) = PInf"
    using fl_overflow [of "X * X"] by (simp add: X_def inf_of_def)
  have "normalize_jxg [Fin 0, Fin 0, Fin 0, Fin (1 / 2), Fin X, Fin 0, Fin 0, Fin 0]
      = [NaN, Fin 0, Fin 0, Fin 0, Fin 1, Fin X, NZero, NZero]"
    using X by (simp add: norm_defs jmul_Fin jdiv_Fin jge_def jle_def isNaN_def zero_of_def inf_of_def
        jmul_def jdiv_def is_inf_def is_zero_def jsub_def fl_exact d o2 oq)
  with n show ?thesis unfolding X_def by blast
qed

text \<open>
  C3. A line input (\<open>a = 0\<close>, \<open>(b0, b1) \<noteq> (0, 0)\<close>) is to yield slot 3 equal to 0, slot 4 equal
  to 1 and a unit vector in slots 1 and 2. On the line \<open>b0 = 1\<close>, \<open>b1 = 0\<close> with \<open>k = - 1\<close> the code
  computes \<open>r = - 1 / 0 = - Infinity\<close>, which the test \<^verbatim>\<open>r==Infinity || isNaN(r)\<close> lets pass to
  the large-radius branch: slots 0 to 2 become NaN.
\<close>

theorem normalize_line_negative_k:
  "normalize_jxg [Fin 0, Fin 1, Fin 0, Fin 0, Fin (- 1), Fin 0, Fin 0, Fin 0]
     = [NaN, NaN, NaN, NZero, Fin 1, NInf, NInf, NaN]"
  by (simp add: norm_defs jmul_Fin jdiv_Fin jge_def jle_def isNaN_def zero_of_def inf_of_def
      jmul_def jdiv_def is_inf_def is_zero_def jsub_def)

text \<open>
  What the line branch does when it is reached, that is for \<open>a = +0\<close> and \<open>k \<ge> 0\<close>: slot 3 is 0,
  slot 4 is 1, and slots 1 and 2 are \<open>b0\<close> and \<open>b1\<close> divided by the square root of
  \<open>b0 * b0 + b1 * b1\<close>, every operation rounded. And in the small-radius regime slot 3 is
  \<open>1 / 2\<close> for a positive \<open>r\<close> and \<open>- 1 / 2\<close> otherwise.
\<close>

lemma normalize_line_branch:
  assumes "nth_num s 3 = Fin 0" "nth_num s 4 = Fin k" "0 \<le> k"
  shows "nth_num (normalize_jxg s) 3 = Fin 0 \<and> nth_num (normalize_jxg s) 4 = Fin 1
       \<and> nth_num (normalize_jxg s) 1 =
           jdiv (nth_num s 1) (Math_sqrt (jadd (jmul (nth_num s 1) (nth_num s 1)) (jmul (nth_num s 2) (nth_num s 2))))
       \<and> nth_num (normalize_jxg s) 2 =
           jdiv (nth_num s 2) (Math_sqrt (jadd (jmul (nth_num s 1) (nth_num s 1)) (jmul (nth_num s 2) (nth_num s 2))))"
proof -
  have "derived_r s = (if k = 0 then NaN else PInf)"
    using assms(3) by (simp add: derived_r_def assms(1,2) jmul_Fin jdiv_Fin zero_of_def inf_of_def)
  then have line: "line_regime (derived_r s)" by (simp add: line_regime_def isNaN_def)
  then show ?thesis by (simp add: nth_normalize Let_def del: One_nat_def)
qed

lemma normalize_small_radius_half:
  assumes "derived_r s = Fin x" "0 < \<bar>x\<bar>" "\<bar>x\<bar> < 1"
  shows "nth_num (normalize_jxg s) 3 = Fin (if 0 < x then 1 / 2 else - (1 / 2))"
proof -
  have nl: "\<not> line_regime (derived_r s)" by (simp add: assms(1) line_regime_def isNaN_def)
  have nlg: "\<not> large_regime (derived_r s)" using assms(3) by (simp add: assms(1) large_regime_Fin)
  show ?thesis
    using nl nlg assms(2) by (auto simp: nth_normalize Let_def assms(1) jle_def jdiv_Fin fl_exact)
qed

section \<open>Transparency of the memoizer\<close>

declare call.simps [simp del]

lemma call_Pure:
  assumes "f < length (heap s)" "body (heap s ! f) = Pure g"
  shows "call str s f x = Some (g x, s\<lparr>evals := evals s @ [(f, x)]\<rparr>)"
  using assms by (subst call.simps) simp

lemma call_Memoized:
  assumes "w < length (heap s)" "body (heap s ! w) = Memoized f c" "f < w"
    and "body (heap s ! f) = Pure g"
  shows "call str s w x =
     (case c (join str x) of
        Some v \<Rightarrow> Some (Some v, s)
      | None \<Rightarrow> Some (g x, cache_store (s\<lparr>evals := evals s @ [(f, x)]\<rparr>) w (join str x) (g x)))"
proof -
  have f: "f < length (heap s)" using assms(1,3) by simp
  show ?thesis
    using assms by (subst call.simps) (simp add: call_Pure [OF f assms(4)] split: option.split)
qed

lemma calls_wrapper:
  assumes "w < length (heap s)" "body (heap s ! w) = Memoized f c" "f < w"
    and "body (heap s ! f) = Pure g"
    and inj: "\<forall>x\<in>A. \<forall>y\<in>A. join str x = join str y \<longrightarrow> x = y"
    and dfd: "\<forall>x\<in>A. g x \<noteq> None"
    and cache: "\<forall>x\<in>A. c (join str x) = (if x \<in> D then g x else None)"
    and xs: "set xs \<subseteq> A"
  shows "\<exists>s' c' es. calls str s w xs = Some (map g xs, s')
          \<and> heap s' = (heap s)[w := (heap s ! w)\<lparr>body := Memoized f c'\<rparr>]
          \<and> evals s' = evals s @ map (Pair f) es
          \<and> distinct es \<and> set es = set xs - D
          \<and> (\<forall>x\<in>A. c' (join str x) = (if x \<in> D \<union> set xs then g x else None))"
  using assms(1,2,4) cache xs
proof (induction xs arbitrary: s c D)
  case Nil
  have "heap s = (heap s)[w := (heap s ! w)\<lparr>body := Memoized f c\<rparr>]"
    using Nil(2) by (metis funobj.surjective funobj.update_convs(1) list_update_id)
  then show ?case using Nil by auto
next
  case (Cons x xs)
  have xA: "x \<in> A" and xsA: "set xs \<subseteq> A" using Cons.prems by auto
  have fw: "f \<noteq> w" using assms(3) by simp
  have cl: "call str s w x =
     (case c (join str x) of
        Some v \<Rightarrow> Some (Some v, s)
      | None \<Rightarrow> Some (g x, cache_store (s\<lparr>evals := evals s @ [(f, x)]\<rparr>) w (join str x) (g x)))"
    using Cons.prems(1,2) assms(3) Cons.prems(3) by (rule call_Memoized)
  show ?case
  proof (cases "x \<in> D")
    case True
    then have hit: "c (join str x) = g x" using Cons.prems(4) xA by simp
    obtain v where v: "g x = Some v" using dfd xA by auto
    have c1: "call str s w x = Some (g x, s)" using cl hit v by simp
    from Cons.IH [OF Cons.prems(1,2,3,4) xsA]
    obtain s' c' es where IH: "calls str s w xs = Some (map g xs, s')"
      "heap s' = (heap s)[w := (heap s ! w)\<lparr>body := Memoized f c'\<rparr>]"
      "evals s' = evals s @ map (Pair f) es" "distinct es" "set es = set xs - D"
      "\<forall>x\<in>A. c' (join str x) = (if x \<in> D \<union> set xs then g x else None)"
      by blast
    have "set es = set (x # xs) - D" using IH(5) True by auto
    moreover have "\<forall>y\<in>A. c' (join str y) = (if y \<in> D \<union> set (x # xs) then g y else None)"
      using IH(6) True by auto
    moreover have "calls str s w (x # xs) = Some (map g (x # xs), s')"
      using c1 IH(1) by simp
    ultimately show ?thesis using IH(2,3,4) by blast
  next
    case False
    then have miss: "c (join str x) = None" using Cons.prems(4) xA by simp
    let ?c1 = "c(join str x := g x)"
    let ?s1 = "cache_store (s\<lparr>evals := evals s @ [(f, x)]\<rparr>) w (join str x) (g x)"
    have s1: "?s1 = s\<lparr>evals := evals s @ [(f, x)],
                       heap := (heap s)[w := (heap s ! w)\<lparr>body := Memoized f ?c1\<rparr>]\<rparr>"
      using Cons.prems(2) by (simp add: cache_store_def)
    have c1: "call str s w x = Some (g x, ?s1)" using cl miss by simp
    have len: "w < length (heap ?s1)" using Cons.prems(1) by (simp add: s1)
    have bw: "body (heap ?s1 ! w) = Memoized f ?c1" using Cons.prems(1) by (simp add: s1)
    have bf: "body (heap ?s1 ! f) = Pure g" using Cons.prems(3) fw by (simp add: s1)
    have cache1: "\<forall>y\<in>A. ?c1 (join str y) = (if y \<in> insert x D then g y else None)"
      using Cons.prems(4) inj xA by auto
    from Cons.IH [OF len bw bf cache1 xsA]
    obtain s' c' es where IH: "calls str ?s1 w xs = Some (map g xs, s')"
      "heap s' = (heap ?s1)[w := (heap ?s1 ! w)\<lparr>body := Memoized f c'\<rparr>]"
      "evals s' = evals ?s1 @ map (Pair f) es" "distinct es" "set es = set xs - insert x D"
      "\<forall>y\<in>A. c' (join str y) = (if y \<in> insert x D \<union> set xs then g y else None)"
      by blast
    have h: "heap s' = (heap s)[w := (heap s ! w)\<lparr>body := Memoized f c'\<rparr>]"
      using IH(2) Cons.prems(1) by (simp add: s1)
    have e: "evals s' = evals s @ map (Pair f) (x # es)" using IH(3) by (simp add: s1)
    have d: "distinct (x # es)" using IH(4,5) by auto
    have st: "set (x # es) = set (x # xs) - D" using IH(5) False by auto
    have cc: "\<forall>y\<in>A. c' (join str y) = (if y \<in> D \<union> set (x # xs) then g y else None)"
      using IH(6) by auto
    have "calls str s w (x # xs) = Some (map g (x # xs), s')"
      using c1 IH(1) by simp
    then show ?thesis using h e d st cc by blast
  qed
qed

lemma call_Memoized2:
  assumes w2: "w2 < length (heap s)" "body (heap s ! w2) = Memoized w c2" "w < w2"
    and w: "body (heap s ! w) = Memoized f c" "f < w"
    and f: "body (heap s ! f) = Pure g"
  shows "call str s w2 x =
     (case c2 (join str x) of
        Some v \<Rightarrow> Some (Some v, s)
      | None \<Rightarrow>
          (case c (join str x) of
             Some v \<Rightarrow> Some (Some v, cache_store s w2 (join str x) (Some v))
           | None \<Rightarrow>
               Some (g x, cache_store (cache_store (s\<lparr>evals := evals s @ [(f, x)]\<rparr>) w (join str x) (g x))
                                     w2 (join str x) (g x))))"
proof -
  have wl: "w < length (heap s)" using w2(1,3) by simp
  show ?thesis
    using w2 by (subst call.simps)
      (simp add: call_Memoized [OF wl w(1,2) f] split: option.split)
qed

lemma calls_wrapper2:
  assumes "w2 < length (heap s)" "body (heap s ! w2) = Memoized w c2" "w < w2"
    and "body (heap s ! w) = Memoized f c" "f < w"
    and "body (heap s ! f) = Pure g"
    and inj: "\<forall>x\<in>A. \<forall>y\<in>A. join str x = join str y \<longrightarrow> x = y"
    and dfd: "\<forall>x\<in>A. g x \<noteq> None"
    and cache: "\<forall>x\<in>A. c (join str x) = (if x \<in> D then g x else None)"
    and cache2: "\<forall>x\<in>A. c2 (join str x) = (if x \<in> D2 then g x else None)"
    and xs: "set xs \<subseteq> A"
  shows "\<exists>s' es. calls str s w2 xs = Some (map g xs, s')
          \<and> evals s' = evals s @ map (Pair f) es
          \<and> distinct es \<and> set es = set xs - D2 - D"
  using assms(1,2,4,6) cache cache2 xs
proof (induction xs arbitrary: s c c2 D D2)
  case Nil
  then show ?case by auto
next
  case (Cons x xs)
  have xA: "x \<in> A" and xsA: "set xs \<subseteq> A" using Cons.prems by auto
  have ne: "f \<noteq> w" "f \<noteq> w2" "w \<noteq> w2" using assms(3,5) by auto
  have wl: "w < length (heap s)" using Cons.prems(1) assms(3) by simp
  obtain v where v: "g x = Some v" using dfd xA by auto
  note cl = call_Memoized2 [OF Cons.prems(1,2) assms(3) Cons.prems(3) assms(5) Cons.prems(4), of str x]
  show ?case
  proof (cases "x \<in> D2")
    case True
    then have "c2 (join str x) = g x" using Cons.prems(6) xA by simp
    then have c1: "call str s w2 x = Some (g x, s)" using cl v by simp
    from Cons.IH [OF Cons.prems(1,2,3,4,5,6) xsA]
    obtain s' es where IH: "calls str s w2 xs = Some (map g xs, s')"
      "evals s' = evals s @ map (Pair f) es" "distinct es" "set es = set xs - D2 - D"
      by blast
    have "set es = set (x # xs) - D2 - D" using IH(4) True by auto
    moreover have "calls str s w2 (x # xs) = Some (map g (x # xs), s')"
      using c1 IH(1) by simp
    ultimately show ?thesis using IH(2,3) by blast
  next
    case out2: False
    then have miss2: "c2 (join str x) = None" using Cons.prems(6) xA by simp
    let ?k = "join str x"
    let ?c2' = "c2(?k := g x)"
    have cache2': "\<forall>y\<in>A. ?c2' (join str y) = (if y \<in> insert x D2 then g y else None)"
      using Cons.prems(6) inj xA by auto
    show ?thesis
    proof (cases "x \<in> D")
      case True
      then have hit: "c ?k = Some v" using Cons.prems(5) xA v by simp
      let ?s1 = "cache_store s w2 ?k (Some v)"
      have s1: "?s1 = s\<lparr>heap := (heap s)[w2 := (heap s ! w2)\<lparr>body := Memoized w ?c2'\<rparr>]\<rparr>"
        using Cons.prems(2) v by (simp add: cache_store_def)
      have c1: "call str s w2 x = Some (g x, ?s1)" using cl miss2 hit v by simp
      have p: "w2 < length (heap ?s1)" "body (heap ?s1 ! w2) = Memoized w ?c2'"
        "body (heap ?s1 ! w) = Memoized f c" "body (heap ?s1 ! f) = Pure g"
        using Cons.prems(1,3,4) ne by (simp_all add: s1)
      from Cons.IH [OF p Cons.prems(5) cache2' xsA]
      obtain s' es where IH: "calls str ?s1 w2 xs = Some (map g xs, s')"
        "evals s' = evals ?s1 @ map (Pair f) es" "distinct es" "set es = set xs - insert x D2 - D"
        by blast
      have e: "evals s' = evals s @ map (Pair f) es" using IH(2) by (simp add: s1)
      have st: "set es = set (x # xs) - D2 - D" using IH(4) True by auto
      have "calls str s w2 (x # xs) = Some (map g (x # xs), s')"
        using c1 IH(1) by simp
      then show ?thesis using e IH(3) st by blast
    next
      case False
      then have miss: "c ?k = None" using Cons.prems(5) xA by simp
      let ?c' = "c(?k := g x)"
      let ?s1 = "cache_store (cache_store (s\<lparr>evals := evals s @ [(f, x)]\<rparr>) w ?k (g x)) w2 ?k (g x)"
      have s1: "?s1 = s\<lparr>evals := evals s @ [(f, x)],
          heap := (heap s)[w := (heap s ! w)\<lparr>body := Memoized f ?c'\<rparr>,
                           w2 := (heap s ! w2)\<lparr>body := Memoized w ?c2'\<rparr>]\<rparr>"
        using Cons.prems(2,3) ne wl by (simp add: cache_store_def)
      have c1: "call str s w2 x = Some (g x, ?s1)" using cl miss2 miss by simp
      have p: "w2 < length (heap ?s1)" "body (heap ?s1 ! w2) = Memoized w ?c2'"
        "body (heap ?s1 ! w) = Memoized f ?c'" "body (heap ?s1 ! f) = Pure g"
        using Cons.prems(1,4) ne wl by (simp_all add: s1)
      have cache': "\<forall>y\<in>A. ?c' (join str y) = (if y \<in> insert x D then g y else None)"
        using Cons.prems(5) inj xA by auto
      from Cons.IH [OF p cache' cache2' xsA]
      obtain s' es where IH: "calls str ?s1 w2 xs = Some (map g xs, s')"
        "evals s' = evals ?s1 @ map (Pair f) es" "distinct es"
        "set es = set xs - insert x D2 - insert x D"
        by blast
      have e: "evals s' = evals s @ map (Pair f) (x # es)" using IH(2) by (simp add: s1)
      have d: "distinct (x # es)" using IH(3,4) by auto
      have st: "set (x # es) = set (x # xs) - D2 - D" using IH(4) False out2 by auto
      have "calls str s w2 (x # xs) = Some (map g (x # xs), s')"
        using c1 IH(1) by simp
      then show ?thesis using e d st by blast
    qed
  qed
qed

lemmas memo_eval = memo_session_def fresh_store_def memoizer_def call.simps cache_store_def Let_def

text \<open>
  C6, as stated, fails for two pure functions. One that returns \<^verbatim>\<open>undefined\<close> is evaluated at
  every call, here twice on the same tuple. And for the function that returns the number of
  its arguments, the tuples \<open>("a", "b")\<close> and \<open>("a,b")\<close> have the same key: after the call on the
  first, the wrapper answers 2 on the second, where the function answers 1.
\<close>

theorem memoizer_not_transparent:
  "memo_session (\<lambda>k. None) (\<lambda>x. x) (\<lambda>args. None :: nat option) [[''1''], [''1'']]
     = Some ([None, None], [[''1''], [''1'']])
   \<and> memo_session (\<lambda>k. None) (\<lambda>x. x) (\<lambda>args. Some (length args)) [[''a'', ''b''], [''a,b'']]
     = Some ([Some 2, Some 2], [[''a'', ''b'']])
   \<and> length [''a,b''] = 1"
  by (simp add: memo_eval)

text \<open>
  C6, amended. Let \<open>f\<close> be a pure function that is not yet wrapped, and \<open>xs\<close> argument tuples
  on which \<open>f\<close> does not return \<^verbatim>\<open>undefined\<close>, whose keys are distinct for distinct tuples and
  are not inherited by a plain object. Then the wrapper returned by \<open>memoizer\<close>, called on \<open>xs\<close>
  in order, returns \<open>f x\<close> each time and evaluates \<open>f\<close> exactly once for each distinct tuple.
  Applying \<open>memoizer\<close> to \<open>f\<close> again, before or after the calls, returns the same wrapper and
  changes nothing. Applying it to the wrapper itself makes a second wrapper, another object,
  around the first; called on \<open>xs\<close> it returns the same values and evaluates \<open>f\<close> no further.
\<close>

theorem memoizer_transparent:
  assumes f: "f < length (heap s)" "body (heap s ! f) = Pure g" "memo (heap s ! f) = None"
    and keys: "\<forall>x\<in>set xs. \<forall>y\<in>set xs. join str x = join str y \<longrightarrow> x = y"
    and own: "\<forall>x\<in>set xs. plain_object (join str x) = None"
    and dfd: "\<forall>x\<in>set xs. g x \<noteq> None"
  shows "\<exists>w s1 s2 es w2 s3 s4.
           memoizer plain_object s f = Some (w, s1)
         \<and> memoizer plain_object s1 f = Some (w, s1)
         \<and> calls str s1 w xs = Some (map g xs, s2)
         \<and> evals s2 = evals s @ map (Pair f) es \<and> distinct es \<and> set es = set xs
         \<and> memoizer plain_object s2 f = Some (w, s2)
         \<and> memoizer plain_object s2 w = Some (w2, s3) \<and> w2 \<noteq> w
         \<and> calls str s3 w2 xs = Some (map g xs, s4) \<and> evals s4 = evals s2"
proof -
  let ?w = "length (heap s)"
  let ?s1 = "s\<lparr>heap := (heap s)[f := (heap s ! f)\<lparr>memo := Some ?w\<rparr>]
                        @ [\<lparr>body = Memoized f plain_object, memo = None\<rparr>]\<rparr>"
  have m1: "memoizer plain_object s f = Some (?w, ?s1)"
    using f by (simp add: memoizer_def Let_def)
  have h1: "?w < length (heap ?s1)" "body (heap ?s1 ! ?w) = Memoized f plain_object"
    "body (heap ?s1 ! f) = Pure g" "memo (heap ?s1 ! f) = Some ?w" "memo (heap ?s1 ! ?w) = None"
    using f by (simp_all add: nth_append)
  have m1': "memoizer plain_object ?s1 f = Some (?w, ?s1)"
    using f h1(4) by (simp add: memoizer_def del: state.simps funobj.simps)
  have cache0: "\<forall>x\<in>set xs. plain_object (join str x) = (if x \<in> {} then g x else None)"
    using own by simp
  from calls_wrapper [OF h1(1,2) f(1) h1(3) keys dfd cache0 subset_refl]
  obtain s2 c' es where run: "calls str ?s1 ?w xs = Some (map g xs, s2)"
    "heap s2 = (heap ?s1)[?w := (heap ?s1 ! ?w)\<lparr>body := Memoized f c'\<rparr>]"
    "evals s2 = evals ?s1 @ map (Pair f) es" "distinct es" "set es = set xs - {}"
    "\<forall>x\<in>set xs. c' (join str x) = (if x \<in> {} \<union> set xs then g x else None)"
    by blast
  have len2: "length (heap s2) = Suc ?w" by (simp add: run(2))
  have h2: "body (heap s2 ! ?w) = Memoized f c'" "body (heap s2 ! f) = Pure g"
    "memo (heap s2 ! f) = Some ?w" "memo (heap s2 ! ?w) = None"
    using f h1 by (simp_all add: run(2) nth_append)
  have m2: "memoizer plain_object s2 f = Some (?w, s2)"
    using f h2(3) len2 by (simp add: memoizer_def)
  let ?w2 = "Suc ?w"
  let ?s3 = "s2\<lparr>heap := (heap s2)[?w := (heap s2 ! ?w)\<lparr>memo := Some ?w2\<rparr>]
                          @ [\<lparr>body = Memoized ?w plain_object, memo = None\<rparr>]\<rparr>"
  have m3: "memoizer plain_object s2 ?w = Some (?w2, ?s3)"
    using h2(4) len2 by (simp add: memoizer_def Let_def)
  have h3: "?w2 < length (heap ?s3)" "body (heap ?s3 ! ?w2) = Memoized ?w plain_object"
    "body (heap ?s3 ! ?w) = Memoized f c'" "body (heap ?s3 ! f) = Pure g"
    using f h2 len2 by (simp_all add: nth_append)
  have cache1: "\<forall>x\<in>set xs. c' (join str x) = (if x \<in> set xs then g x else None)"
    using run(6) by simp
  from calls_wrapper2 [OF h3(1,2) lessI h3(3) f(1) h3(4) keys dfd cache1 cache0 subset_refl]
  obtain s4 es' where run2: "calls str ?s3 ?w2 xs = Some (map g xs, s4)"
    "evals s4 = evals ?s3 @ map (Pair f) es'" "set es' = set xs - {} - set xs"
    by blast
  have "es' = []" using run2(3) by simp
  then have e4: "evals s4 = evals s2" using run2(2) by simp
  have e2: "evals s2 = evals s @ map (Pair f) es" "set es = set xs"
    using run(3,5) by simp_all
  have ne: "?w2 \<noteq> ?w" by simp
  show ?thesis
    by (rule exI [of _ ?w], rule exI [of _ ?s1], rule exI [of _ s2], rule exI [of _ es],
        rule exI [of _ ?w2], rule exI [of _ ?s3], rule exI [of _ s4], intro conjI)
      (fact m1 m1' run(1) e2 run(4) m2 m3 ne run2(1) e4)+
qed

theorem memoizer_transparent_witness:
  "\<exists>w s1 s2 es w2 s3 s4.
     memoizer (\<lambda>k. None) (fresh_store (\<lambda>args. Some (length args))) 0 = Some (w, s1)
   \<and> memoizer (\<lambda>k. None) s1 0 = Some (w, s1)
   \<and> calls (\<lambda>x. x) s1 w [[''a''], [''a'', ''b''], [''a'']] = Some ([Some 1, Some 2, Some 1], s2)
   \<and> evals s2 = map (Pair 0) es \<and> distinct es \<and> set es = {[''a''], [''a'', ''b'']}
   \<and> memoizer (\<lambda>k. None) s2 0 = Some (w, s2)
   \<and> memoizer (\<lambda>k. None) s2 w = Some (w2, s3) \<and> w2 \<noteq> w
   \<and> calls (\<lambda>x. x) s3 w2 [[''a''], [''a'', ''b''], [''a'']] = Some ([Some 1, Some 2, Some 1], s4)
   \<and> evals s4 = evals s2"
proof -
  let ?g = "\<lambda>args :: string list. Some (length args)"
  let ?xs = "[[''a''], [''a'', ''b''], [''a'']]"
  have f: "0 < length (heap (fresh_store ?g))" "body (heap (fresh_store ?g) ! 0) = Pure ?g"
    "memo (heap (fresh_store ?g) ! 0) = None"
    by (simp_all add: fresh_store_def)
  have keys: "\<forall>x\<in>set ?xs. \<forall>y\<in>set ?xs. join (\<lambda>x. x) x = join (\<lambda>x. x) y \<longrightarrow> x = y"
    by simp
  have own: "\<forall>x\<in>set ?xs. (\<lambda>k :: string. None :: nat option) (join (\<lambda>x. x) x) = None"
    by simp
  have dfd: "\<forall>x\<in>set ?xs. ?g x \<noteq> None" by simp
  have mg: "map ?g ?xs = [Some 1, Some 2, Some 1]" by simp
  have ev: "evals (fresh_store ?g) @ map (Pair 0) es = map (Pair 0) es" for es :: "string list list"
    by (simp add: fresh_store_def)
  have st: "set ?xs = {[''a''], [''a'', ''b'']}" by auto
  from memoizer_transparent [OF f keys own dfd]
  obtain w s1 s2 es w2 s3 s4 where
    "memoizer (\<lambda>k. None) (fresh_store ?g) 0 = Some (w, s1)"
    "memoizer (\<lambda>k. None) s1 0 = Some (w, s1)"
    "calls (\<lambda>x. x) s1 w ?xs = Some (map ?g ?xs, s2)"
    "evals s2 = evals (fresh_store ?g) @ map (Pair 0) es" "distinct es" "set es = set ?xs"
    "memoizer (\<lambda>k. None) s2 0 = Some (w, s2)"
    "memoizer (\<lambda>k. None) s2 w = Some (w2, s3)" "w2 \<noteq> w"
    "calls (\<lambda>x. x) s3 w2 ?xs = Some (map ?g ?xs, s4)" "evals s4 = evals s2"
    by blast
  then show ?thesis
    unfolding mg ev st
    by (intro exI [of _ w] exI [of _ s1] exI [of _ s2] exI [of _ es] exI [of _ w2]
        exI [of _ s3] exI [of _ s4] conjI)
qed

end
